theory Spec2Isabelle
  imports Main
begin

section \<open>The LRU cache with TTL invalidation (package lru)\<close>

text \<open>
  The package keeps a Go map from keys to pointers to \<^verbatim>\<open>list.Element\<close> and a
  \<^verbatim>\<open>container/list\<close> list of those elements; each element's \<^verbatim>\<open>Value\<close> holds a
  \<^verbatim>\<open>cached[K, V]\<close>. The map and the list share the elements, and \<^verbatim>\<open>Set\<close> writes
  \<^verbatim>\<open>e.Value\<close> through the pointer found in the map, so the model keeps an explicit
  store: an element pointer is a natural number, the list is the sequence of the
  pointers of its elements from front to back, and a store gives the \<^verbatim>\<open>Value\<close> of
  each element.

  \<^verbatim>\<open>Set\<close> reads the clock and the TTL, which never changes, and then holds the mutex to
  its end; \<^verbatim>\<open>Get\<close> holds it for its whole body. A completed call is therefore one
  atomic step on the state, and the reading of \<^verbatim>\<open>time.Now()\<close> is an input of the call.
  A \<^verbatim>\<open>time.Time\<close> and a \<^verbatim>\<open>time.Duration\<close> are integers (nanoseconds): \<^verbatim>\<open>t.Add(d)\<close> is
  \<open>t + d\<close> and \<^verbatim>\<open>t.Before(u)\<close> is \<open>t < u\<close>. The capacity is a Go \<^verbatim>\<open>int\<close> that the code
  only compares and copies, so it is an integer too.
\<close>

subsection \<open>cached.go\<close>

record ('k, 'v) cached =
  key :: 'k
  value' :: 'v
  expiredAt :: int

definition expired :: "('k, 'v) cached \<Rightarrow> int \<Rightarrow> bool" where
  "expired c now = (expiredAt c < now)"

subsection \<open>options.go\<close>

record cacheOptions =
  o_capacity :: int
  o_ttl :: int

text \<open>An \<^verbatim>\<open>Option\<close> is a function on the options, or nil.\<close>

type_synonym Option = "(cacheOptions \<Rightarrow> cacheOptions) option"

definition WithCapacity :: "int \<Rightarrow> Option" where
  "WithCapacity capacity' =
     Some (\<lambda>opt. if capacity' > 0 then opt\<lparr>o_capacity := capacity'\<rparr> else opt)"

definition WithTTL :: "int \<Rightarrow> Option" where
  "WithTTL ttl' = Some (\<lambda>opt. if ttl' \<ge> 0 then opt\<lparr>o_ttl := ttl'\<rparr> else opt)"

subsection \<open>The operations of container/list that the cache calls\<close>

text \<open>
  The list is the sequence of its elements' pointers, front first. An element belongs to
  the list (\<^verbatim>\<open>e.list == l\<close>) when its pointer occurs in the sequence.
\<close>

definition Len :: "nat list \<Rightarrow> int" where
  "Len l = int (length l)"

definition Back :: "nat list \<Rightarrow> nat option" where
  "Back l = (if length l = 0 then None else Some (last l))"

definition Remove :: "nat \<Rightarrow> nat list \<Rightarrow> nat list" where
  "Remove e l = (if e \<in> set l then remove1 e l else l)"

definition MoveToFront :: "nat \<Rightarrow> nat list \<Rightarrow> nat list" where
  "MoveToFront e l = (if e \<notin> set l \<or> hd l = e then l else e # remove1 e l)"

subsection \<open>The equality of keys and the map\<close>

text \<open>
  The type parameter \<^verbatim>\<open>K\<close> is \<^verbatim>\<open>comparable\<close>: what the code knows of a key is Go's
  \<^verbatim>\<open>==\<close>, which the map uses for every lookup, assignment and deletion. On the keys
  that are equal to themselves \<^verbatim>\<open>==\<close> is an equivalence, and a key of the model stands
  for a class of it, so that there \<^verbatim>\<open>==\<close> is the identity. A key that is not equal to
  itself (a floating-point NaN, or a struct or array that holds one) is equal to no key.
  The predicate \<open>se\<close>, which the operations take as the type parameter's equality, says
  which keys are equal to themselves: \<open>se k\<close> is \<^verbatim>\<open>k == k\<close>. The keys are those that
  can be hashed and compared, on which the map operations return.
\<close>

definition key_eq :: "('k \<Rightarrow> bool) \<Rightarrow> 'k \<Rightarrow> 'k \<Rightarrow> bool" where
  "key_eq se a b \<longleftrightarrow> a = b \<and> se a"

text \<open>
  A \<^verbatim>\<open>map[K]*list.Element\<close> is the list of its entries, in an order that the code never
  observes. \<^verbatim>\<open>m[k]\<close> finds the entry whose key is \<^verbatim>\<open>==\<close> to \<open>k\<close>; \<^verbatim>\<open>m[k] = e\<close> overwrites
  that entry, or adds an entry when there is none; \<^verbatim>\<open>delete(m, k)\<close> removes it. A key
  that is not equal to itself is therefore never found and never deleted, and every
  assignment under it adds an entry.
\<close>

fun map_lookup :: "('k \<Rightarrow> bool) \<Rightarrow> ('k \<times> nat) list \<Rightarrow> 'k \<Rightarrow> nat option" where
  "map_lookup se [] k = None"
| "map_lookup se ((k', e') # m) k = (if key_eq se k' k then Some e' else map_lookup se m k)"

fun map_assign :: "('k \<Rightarrow> bool) \<Rightarrow> ('k \<times> nat) list \<Rightarrow> 'k \<Rightarrow> nat \<Rightarrow> ('k \<times> nat) list" where
  "map_assign se [] k e = [(k, e)]"
| "map_assign se ((k', e') # m) k e =
     (if key_eq se k' k then (k', e) # m else (k', e') # map_assign se m k e)"

definition map_delete :: "('k \<Rightarrow> bool) \<Rightarrow> ('k \<times> nat) list \<Rightarrow> 'k \<Rightarrow> ('k \<times> nat) list" where
  "map_delete se m k = filter (\<lambda>p. \<not> key_eq se (fst p) k) m"

definition map_len :: "('k \<times> nat) list \<Rightarrow> int" where
  "map_len m = int (length m)"

subsection \<open>The cache\<close>

definition defaultSize :: int where
  "defaultSize = 128"

text \<open>
  \<open>Value\<close> is the store: \<open>Value c e = Some val\<close> when the element \<open>e\<close> holds the
  \<^verbatim>\<open>cached[K, V]\<close> \<open>val\<close>, and \<open>None\<close> when it holds no such value, where the
  type assertion \<^verbatim>\<open>e.Value.(cached[K, V])\<close> panics. \<open>nxt\<close> is the pointer that the
  next allocation of an element returns.
\<close>

record ('k, 'v) Cache =
  items :: "('k \<times> nat) list"
  evictList :: "nat list"
  capacity :: int
  ttl :: int
  Value :: "nat \<rightharpoonup> ('k, 'v) cached"
  nxt :: nat

datatype panic = InterfaceConversion

type_synonym error = string

fun applyOpts :: "Option list \<Rightarrow> cacheOptions \<Rightarrow> cacheOptions" where
  "applyOpts [] opt = opt"
| "applyOpts (None # opts) opt = applyOpts opts opt"
| "applyOpts (Some f # opts) opt = applyOpts opts (f opt)"

definition New :: "Option list \<Rightarrow> ('k, 'v) Cache \<times> error option" where
  "New opts =
     (let opt = applyOpts opts \<lparr>o_capacity = 0, o_ttl = 0\<rparr>;
          opt = (if o_capacity opt \<le> 0 then opt\<lparr>o_capacity := defaultSize\<rparr> else opt)
      in (\<lparr>items = [], evictList = [], capacity = o_capacity opt,
           ttl = o_ttl opt, Value = Map.empty, nxt = 0\<rparr>, None))"

text \<open>
  The block of \<^verbatim>\<open>Set\<close> that makes room for a new key
  (\<^verbatim>\<open>if c.evictList.Len() >= c.capacity { ... }\<close>), as a function of its own: when the
  list is at capacity and has a back element, the element leaves the list and
  \<^verbatim>\<open>delete\<close> is called on the map with the key it stores; when the list is at capacity
  and empty, nothing happens.
\<close>

definition evict :: "('k \<Rightarrow> bool) \<Rightarrow> ('k, 'v) Cache \<Rightarrow> panic + ('k, 'v) Cache" where
  "evict se c =
     (if Len (evictList c) \<ge> capacity c then
        (case Back (evictList c) of
           None \<Rightarrow> Inr c
         | Some last' \<Rightarrow>
             (case Value c last' of
                None \<Rightarrow> Inl InterfaceConversion
              | Some val \<Rightarrow>
                  Inr (c\<lparr>evictList := Remove last' (evictList c),
                         items := map_delete se (items c) (key val)\<rparr>)))
      else Inr c)"

definition Set ::
  "('k \<Rightarrow> bool) \<Rightarrow> int \<Rightarrow> 'k \<Rightarrow> 'v \<Rightarrow> ('k, 'v) Cache \<Rightarrow> panic + ('k, 'v) Cache" where
  "Set se now k v c =
     (let expires = now + ttl c in
      case map_lookup se (items c) k of
        Some e \<Rightarrow>
          Inr (c\<lparr>Value := (Value c)(e \<mapsto> \<lparr>key = k, value' = v, expiredAt = expires\<rparr>),
                 evictList := MoveToFront e (evictList c)\<rparr>)
      | None \<Rightarrow>
          (case evict se c of
             Inl p \<Rightarrow> Inl p
           | Inr c1 \<Rightarrow>
               (let val = \<lparr>key = k, value' = v, expiredAt = expires\<rparr>;
                    e = nxt c1
                in Inr (c1\<lparr>Value := (Value c1)(e \<mapsto> val),
                          evictList := e # evictList c1,
                          items := map_assign se (items c1) k e,
                          nxt := Suc e\<rparr>))))"

text \<open>
  \<^verbatim>\<open>Get\<close> returns the pair \<^verbatim>\<open>(value, presented)\<close> and the state. The zero value of
  \<^verbatim>\<open>V\<close>, which the named results hold at the bare \<^verbatim>\<open>return\<close>, is the \<open>0\<close> of the
  type.
\<close>

definition Get ::
  "('k \<Rightarrow> bool) \<Rightarrow> int \<Rightarrow> 'k \<Rightarrow> ('k, 'v::zero) Cache \<Rightarrow> panic + ('v \<times> bool) \<times> ('k, 'v) Cache" where
  "Get se now k c =
     (case map_lookup se (items c) k of
        None \<Rightarrow> Inr ((0, False), c)
      | Some e \<Rightarrow>
          (case Value c e of
             None \<Rightarrow> Inl InterfaceConversion
           | Some val \<Rightarrow>
               if ttl c \<noteq> 0 \<and> expired val now then Inr ((0, False), c)
               else Inr ((value' val, True),
                         c\<lparr>evictList := MoveToFront e (evictList c)\<rparr>)))"

subsection \<open>Sequences of calls\<close>

text \<open>
  A call carries the reading of the clock (\<^verbatim>\<open>time.Now()\<close>) that it makes, the key and,
  for \<^verbatim>\<open>Set\<close>, the value.
\<close>

datatype ('k, 'v) call =
  is_CallSet: CallSet (call_time: int) (call_key: 'k) (call_value: 'v)
| CallGet (call_time: int) (call_key: 'k)

fun exec :: "('k \<Rightarrow> bool) \<Rightarrow> ('k, 'v::zero) call \<Rightarrow> ('k, 'v) Cache \<Rightarrow> panic + ('k, 'v) Cache" where
  "exec se (CallSet now k v) c = Set se now k v c"
| "exec se (CallGet now k) c =
     (case Get se now k c of Inl p \<Rightarrow> Inl p | Inr (r, c') \<Rightarrow> Inr c')"

fun run :: "('k \<Rightarrow> bool) \<Rightarrow> ('k, 'v::zero) call list \<Rightarrow> ('k, 'v) Cache \<Rightarrow> panic + ('k, 'v) Cache" where
  "run se [] c = Inr c"
| "run se (x # xs) c = (case exec se x c of Inl p \<Rightarrow> Inl p | Inr c' \<Rightarrow> run se xs c')"

text \<open>The entry that a \<^verbatim>\<open>Set\<close> call stores in a cache whose TTL is \<open>d\<close>.\<close>

definition call_entry :: "int \<Rightarrow> ('k, 'v) call \<Rightarrow> ('k, 'v) cached" where
  "call_entry d x = \<lparr>key = call_key x, value' = call_value x, expiredAt = call_time x + d\<rparr>"

text \<open>
  Keys for the examples, as those of type \<^verbatim>\<open>float64\<close>: a number, which is equal to
  itself, or NaN, which is not.
\<close>

datatype float_key = is_Num: Num int | NaN

subsection \<open>Invariants\<close>

text \<open>
  The entries that the list holds, front (most recently used) first.
\<close>

definition entries :: "('k, 'v) Cache \<Rightarrow> ('k, 'v) cached list" where
  "entries c = List.map_filter (Value c) (evictList c)"

text \<open>
  The invariant of the specification: the index and the list have the same size, at
  most the capacity; the keys of the index are the keys that the list's nodes store;
  every index entry points to a node of the list whose stored key is \<^verbatim>\<open>==\<close> to the
  entry's key; and every node of the list is the one that the index gives for the key
  it stores.
\<close>

definition bijection_invariant :: "('k \<Rightarrow> bool) \<Rightarrow> ('k, 'v) Cache \<Rightarrow> bool" where
  "bijection_invariant se c \<longleftrightarrow>
     map_len (items c) = Len (evictList c) \<and>
     Len (evictList c) \<le> capacity c \<and>
     fst ` set (items c) = key ` set (entries c) \<and>
     (\<forall>p \<in> set (items c).
        snd p \<in> set (evictList c) \<and>
        (\<exists>val. Value c (snd p) = Some val \<and> key_eq se (key val) (fst p))) \<and>
     (\<forall>e \<in> set (evictList c).
        \<exists>val. Value c e = Some val \<and> map_lookup se (items c) (key val) = Some e)"

text \<open>
  What holds of the state after any calls, whatever their keys: an element is in the
  list once, the elements of the list have been allocated, the capacity is positive and
  bounds the length of the list, a key that the index finds is the key stored by the
  element found, which is in the list, and the index finds every element of the list
  whose stored key is equal to itself.
\<close>

definition cache_ok :: "('k \<Rightarrow> bool) \<Rightarrow> ('k, 'v) Cache \<Rightarrow> bool" where
  "cache_ok se c \<longleftrightarrow>
     distinct (evictList c) \<and>
     (\<forall>e \<in> set (evictList c). e < nxt c) \<and>
     1 \<le> capacity c \<and>
     Len (evictList c) \<le> capacity c \<and>
     (\<forall>k e. map_lookup se (items c) k = Some e \<longrightarrow>
        e \<in> set (evictList c) \<and> (\<exists>val. Value c e = Some val \<and> key val = k)) \<and>
     (\<forall>e \<in> set (evictList c).
        \<exists>val. Value c e = Some val \<and>
          (se (key val) \<longrightarrow> map_lookup se (items c) (key val) = Some e))"

text \<open>
  What holds in addition while every key that has been set is equal to itself: the
  index has one entry for a key, and its keys are equal to themselves.
\<close>

definition index_ok :: "('k \<Rightarrow> bool) \<Rightarrow> ('k, 'v) Cache \<Rightarrow> bool" where
  "index_ok se c \<longleftrightarrow>
     distinct (map fst (items c)) \<and>
     (\<forall>p \<in> set (items c). se (fst p)) \<and>
     (\<forall>val \<in> set (entries c). se (key val))"

section \<open>Auxiliary facts\<close>

subsection \<open>The list operations\<close>

lemma insert_remove1: "e \<in> set l \<Longrightarrow> insert e (set (remove1 e l)) = set l"
  by (induction l) auto

lemma set_MoveToFront [simp]: "set (MoveToFront e l) = set l"
  by (simp add: MoveToFront_def insert_remove1)

lemma distinct_MoveToFront [simp]: "distinct l \<Longrightarrow> distinct (MoveToFront e l)"
  by (auto simp: MoveToFront_def)

lemma length_MoveToFront [simp]: "length (MoveToFront e l) = length l"
  by (auto simp: MoveToFront_def length_remove1 dest: length_pos_if_in_set)

lemma Len_MoveToFront [simp]: "Len (MoveToFront e l) = Len l"
  by (simp add: Len_def)

lemma MoveToFront_eq: "e \<in> set l \<Longrightarrow> MoveToFront e l = e # remove1 e l"
  by (cases l) (auto simp: MoveToFront_def)

lemma remove1_last: "l \<noteq> [] \<Longrightarrow> distinct l \<Longrightarrow> remove1 (last l) l = butlast l"
  by (induction l) (auto)

lemma Back_Some: "l \<noteq> [] \<Longrightarrow> Back l = Some (last l)"
  by (simp add: Back_def)

lemma Remove_last: "l \<noteq> [] \<Longrightarrow> distinct l \<Longrightarrow> Remove (last l) l = butlast l"
  by (simp add: Remove_def remove1_last)

lemma map_filter_total:
  "\<forall>e \<in> set l. \<exists>v. f e = Some v \<Longrightarrow> List.map_filter f l = map (\<lambda>e. the (f e)) l"
  by (induction l) (auto simp: List.map_filter_simps)

lemma map_filter_cong_set:
  "(\<And>x. x \<in> set l \<Longrightarrow> f x = g x) \<Longrightarrow> List.map_filter f l = List.map_filter g l"
proof (induction l)
  case Nil
  show ?case by (simp add: List.map_filter_simps)
next
  case (Cons a l)
  have "f a = g a" using Cons.prems by simp
  moreover have "List.map_filter f l = List.map_filter g l"
    using Cons.prems by (intro Cons.IH) simp
  ultimately show ?case by (simp add: List.map_filter_simps split: option.split)
qed

lemma map_filter_upd_fresh:
  "n \<notin> set l \<Longrightarrow> List.map_filter (V(n \<mapsto> val)) l = List.map_filter V l"
  by (rule map_filter_cong_set) auto

lemma set_map_filter: "set (List.map_filter f l) = {v. \<exists>e \<in> set l. f e = Some v}"
  by (induction l) (auto simp: List.map_filter_simps split: option.splits)

lemma set_entries: "set (entries c) = {v. \<exists>e \<in> set (evictList c). Value c e = Some v}"
  by (simp add: entries_def set_map_filter)

subsection \<open>The map\<close>

lemma lookup_Some: "map_lookup se m k = Some e \<Longrightarrow> se k \<and> (k, e) \<in> set m"
  by (induction m) (auto simp: key_eq_def split: if_splits)

lemma lookup_not_se: "\<not> se k \<Longrightarrow> map_lookup se m k = None"
  by (induction m) (auto simp: key_eq_def)

lemma lookup_None_keys: "se k \<Longrightarrow> (map_lookup se m k = None) = (k \<notin> fst ` set m)"
  by (induction m) (auto simp: key_eq_def split: if_splits)

lemma lookup_assign:
  "map_lookup se (map_assign se m k e) x =
     (if se k \<and> x = k then Some e else map_lookup se m x)"
  by (induction m) (auto simp: key_eq_def)

lemma lookup_delete:
  "map_lookup se (map_delete se m k) x = (if x = k then None else map_lookup se m x)"
  by (induction m) (auto simp: map_delete_def key_eq_def)

lemma assign_miss: "map_lookup se m k = None \<Longrightarrow> map_assign se m k e = m @ [(k, e)]"
  by (induction m) (auto split: if_splits)

lemma set_delete: "set (map_delete se m k) = {p \<in> set m. \<not> (fst p = k \<and> se k)}"
  by (auto simp: map_delete_def key_eq_def)

lemma distinct_delete: "distinct (map fst m) \<Longrightarrow> distinct (map fst (map_delete se m k))"
  by (simp add: map_delete_def distinct_map_filter)

lemma length_delete:
  "distinct (map fst m) \<Longrightarrow> map_lookup se m k = Some e \<Longrightarrow>
   Suc (length (map_delete se m k)) = length m"
proof (induction m)
  case Nil
  then show ?case by simp
next
  case (Cons p m)
  show ?case
  proof (cases "key_eq se (fst p) k")
    case True
    then have "fst p = k" by (simp add: key_eq_def)
    then have "k \<notin> fst ` set m" using Cons.prems(1) by auto
    then have "filter (\<lambda>p. \<not> key_eq se (fst p) k) m = m"
      by (auto simp: key_eq_def filter_id_conv)
    with True show ?thesis by (simp add: map_delete_def)
  next
    case False
    then have "map_lookup se m k = Some e" using Cons.prems(2) by (cases p) simp
    from Cons.IH[OF _ this] Cons.prems(1) False show ?thesis by (simp add: map_delete_def)
  qed
qed

subsection \<open>The invariant\<close>

lemma ok_Value: "cache_ok se c \<Longrightarrow> e \<in> set (evictList c) \<Longrightarrow>
  \<exists>val. Value c e = Some val \<and> (se (key val) \<longrightarrow> map_lookup se (items c) (key val) = Some e)"
  unfolding cache_ok_def by blast

lemma ok_items: "cache_ok se c \<Longrightarrow> map_lookup se (items c) k = Some e \<Longrightarrow>
  e \<in> set (evictList c) \<and> (\<exists>val. Value c e = Some val \<and> key val = k)"
  unfolding cache_ok_def by blast

lemma ok_entries: "cache_ok se c \<Longrightarrow> entries c = map (\<lambda>e. the (Value c e)) (evictList c)"
  unfolding entries_def using ok_Value[of se c] by (intro map_filter_total) blast

lemma ok_length_entries: "cache_ok se c \<Longrightarrow> Len (evictList c) = int (length (entries c))"
  by (simp add: ok_entries Len_def)

lemma ok_length_le:
  assumes "cache_ok se c"
  shows "length (entries c) \<le> nat (capacity c)"
proof -
  have "Len (evictList c) \<le> capacity c" using assms by (simp add: cache_ok_def)
  then have "int (length (entries c)) \<le> capacity c" by (simp add: ok_length_entries[OF assms])
  then show ?thesis by linarith
qed

lemma ok_lookup_None:
  assumes w: "cache_ok se c" and s: "se k"
  shows "(map_lookup se (items c) k = None) = (k \<notin> key ` set (entries c))"
proof
  assume n: "map_lookup se (items c) k = None"
  show "k \<notin> key ` set (entries c)"
  proof
    assume "k \<in> key ` set (entries c)"
    then obtain e where e: "e \<in> set (evictList c)" "k = key (the (Value c e))"
      by (auto simp: ok_entries[OF w])
    from ok_Value[OF w e(1)] e(2) n s show False by auto
  qed
next
  assume n: "k \<notin> key ` set (entries c)"
  show "map_lookup se (items c) k = None"
  proof (cases "map_lookup se (items c) k")
    case (Some e)
    from ok_items[OF w Some] obtain val where
      "e \<in> set (evictList c)" "Value c e = Some val" "key val = k" by blast
    then have "k \<in> key ` set (entries c)"
      by (force simp: ok_entries[OF w] image_iff)
    with n show ?thesis by simp
  qed simp
qed

lemma entries_lookup:
  assumes w: "cache_ok se c" and m: "val \<in> set (entries c)" and s: "se (key val)"
  shows "\<exists>e. map_lookup se (items c) (key val) = Some e \<and> Value c e = Some val"
proof -
  from m obtain e where e: "e \<in> set (evictList c)" "val = the (Value c e)"
    by (auto simp: ok_entries[OF w])
  from ok_Value[OF w e(1)] e(2) s show ?thesis by auto
qed

lemma ok_New: "cache_ok se (fst (New opts))"
  by (simp add: New_def cache_ok_def Let_def Len_def defaultSize_def)

lemma entries_New: "entries (fst (New opts)) = []"
  by (simp add: New_def entries_def Let_def List.map_filter_simps)

lemma index_ok_New: "index_ok se (fst (New opts))"
  by (simp add: index_ok_def entries_New) (simp add: New_def Let_def)

lemma evict_noop: "Len (evictList c) < capacity c \<Longrightarrow> evict se c = Inr c"
  by (simp add: evict_def)

lemma ok_full_nonempty:
  "cache_ok se c \<Longrightarrow> Len (evictList c) \<ge> capacity c \<Longrightarrow> evictList c \<noteq> []"
  by (auto simp: cache_ok_def Len_def)

lemma last_notin_butlast: "distinct l \<Longrightarrow> l \<noteq> [] \<Longrightarrow> last l \<notin> set (butlast l)"
  by (induction l) (auto dest: in_set_butlastD)

lemma in_butlast: "e \<in> set l \<Longrightarrow> e \<noteq> last l \<Longrightarrow> e \<in> set (butlast l)"
  by (induction l) (auto split: if_splits)

lemma evict_full:
  assumes "cache_ok se c" "Len (evictList c) \<ge> capacity c"
    "Value c (last (evictList c)) = Some val"
  shows "evict se c = Inr (c\<lparr>evictList := butlast (evictList c),
                            items := map_delete se (items c) (key val)\<rparr>)"
proof -
  have ne: "evictList c \<noteq> []" by (rule ok_full_nonempty[OF assms(1,2)])
  have d: "distinct (evictList c)" using assms(1) by (simp add: cache_ok_def)
  show ?thesis
    by (simp add: evict_def assms(2,3) Back_Some[OF ne] Remove_last[OF ne d])
qed

lemma ok_evicted:
  assumes w: "cache_ok se c" and ne: "evictList c \<noteq> []"
    and v: "Value c (last (evictList c)) = Some val"
  shows "cache_ok se (c\<lparr>evictList := butlast (evictList c),
                        items := map_delete se (items c) (key val)\<rparr>)"
proof -
  let ?l = "evictList c"
  let ?m = "map_delete se (items c) (key val)"
  have d: "distinct ?l" using w by (simp add: cache_ok_def)
  have sub: "set (butlast ?l) \<subseteq> set ?l" by (auto dest: in_set_butlastD)
  have notin: "last ?l \<notin> set (butlast ?l)" by (rule last_notin_butlast[OF d ne])
  have il: "se (key val) \<Longrightarrow> map_lookup se (items c) (key val) = Some (last ?l)"
    using ok_Value[OF w, of "last ?l"] ne v by auto
  have 1: "distinct (butlast ?l)" using d by (rule distinct_butlast)
  have 2: "\<forall>e \<in> set (butlast ?l). e < nxt c" using w sub by (auto simp: cache_ok_def)
  have 3: "1 \<le> capacity c" using w by (simp add: cache_ok_def)
  have "Len ?l \<le> capacity c" using w by (simp add: cache_ok_def)
  then have 4: "Len (butlast ?l) \<le> capacity c" by (simp add: Len_def)
  have 5: "\<forall>k e. map_lookup se ?m k = Some e \<longrightarrow>
        e \<in> set (butlast ?l) \<and> (\<exists>val. Value c e = Some val \<and> key val = k)"
  proof (intro allI impI)
    fix k e assume a: "map_lookup se ?m k = Some e"
    then have k: "k \<noteq> key val" and i: "map_lookup se (items c) k = Some e"
      by (auto simp: lookup_delete split: if_splits)
    from ok_items[OF w i] obtain val' where
      e: "e \<in> set ?l" "Value c e = Some val'" "key val' = k" by blast
    have "e \<noteq> last ?l" using e k v by auto
    then have "e \<in> set (butlast ?l)" using e(1) by (intro in_butlast)
    with e show "e \<in> set (butlast ?l) \<and> (\<exists>val. Value c e = Some val \<and> key val = k)"
      by simp
  qed
  have 6: "\<forall>e \<in> set (butlast ?l). \<exists>val'. Value c e = Some val' \<and>
             (se (key val') \<longrightarrow> map_lookup se ?m (key val') = Some e)"
  proof
    fix e assume e: "e \<in> set (butlast ?l)"
    then have el: "e \<in> set ?l" using sub by blast
    from ok_Value[OF w el] obtain val' where v': "Value c e = Some val'"
      "se (key val') \<longrightarrow> map_lookup se (items c) (key val') = Some e" by blast
    have nl: "e \<noteq> last ?l" using e notin by auto
    have "map_lookup se ?m (key val') = Some e" if s: "se (key val')"
    proof -
      have "key val' \<noteq> key val"
      proof
        assume eq: "key val' = key val"
        with s il have "map_lookup se (items c) (key val') = Some (last ?l)" by simp
        with v'(2) s nl show False by simp
      qed
      with v'(2) s show ?thesis by (simp add: lookup_delete)
    qed
    with v'(1) show "\<exists>val'. Value c e = Some val' \<and>
             (se (key val') \<longrightarrow> map_lookup se ?m (key val') = Some e)" by blast
  qed
  let ?c' = "c\<lparr>evictList := butlast (evictList c), items := map_delete se (items c) (key val)\<rparr>"
  have f: "evictList ?c' = butlast ?l" "items ?c' = ?m" "Value ?c' = Value c" "nxt ?c' = nxt c"
    "capacity ?c' = capacity c" by simp_all
  show ?thesis unfolding cache_ok_def f by (intro conjI 1 2 3 4 5 6)
qed

lemma ok_push:
  assumes w: "cache_ok se c" and lt: "Len (evictList c) < capacity c"
    and n: "map_lookup se (items c) k = None" and kv: "key val = k"
  shows "cache_ok se (c\<lparr>Value := (Value c)(nxt c \<mapsto> val), evictList := nxt c # evictList c,
               items := map_assign se (items c) k (nxt c), nxt := Suc (nxt c)\<rparr>)"
proof -
  let ?l = "evictList c"
  let ?m = "map_assign se (items c) k (nxt c)"
  have fresh: "nxt c \<notin> set ?l" using w by (auto simp: cache_ok_def)
  have 1: "distinct (nxt c # ?l)" using w fresh by (simp add: cache_ok_def)
  have 2: "\<forall>e \<in> set (nxt c # ?l). e < Suc (nxt c)" using w by (auto simp: cache_ok_def)
  have 3: "1 \<le> capacity c" using w by (simp add: cache_ok_def)
  have 4: "Len (nxt c # ?l) \<le> capacity c" using lt by (simp add: Len_def)
  have 5: "\<forall>k' e. map_lookup se ?m k' = Some e \<longrightarrow>
        e \<in> set (nxt c # ?l) \<and> (\<exists>val'. ((Value c)(nxt c \<mapsto> val)) e = Some val' \<and> key val' = k')"
  proof (intro allI impI)
    fix k' e assume a: "map_lookup se ?m k' = Some e"
    show "e \<in> set (nxt c # ?l) \<and> (\<exists>val'. ((Value c)(nxt c \<mapsto> val)) e = Some val' \<and> key val' = k')"
    proof (cases "se k \<and> k' = k")
      case True
      with a kv show ?thesis by (simp add: lookup_assign)
    next
      case False
      with a have i: "map_lookup se (items c) k' = Some e" by (simp add: lookup_assign)
      from ok_items[OF w i] fresh show ?thesis by auto
    qed
  qed
  have 6: "\<forall>e \<in> set (nxt c # ?l). \<exists>val'. ((Value c)(nxt c \<mapsto> val)) e = Some val' \<and>
        (se (key val') \<longrightarrow> map_lookup se ?m (key val') = Some e)"
  proof
    fix e assume e: "e \<in> set (nxt c # ?l)"
    show "\<exists>val'. ((Value c)(nxt c \<mapsto> val)) e = Some val' \<and>
        (se (key val') \<longrightarrow> map_lookup se ?m (key val') = Some e)"
    proof (cases "e = nxt c")
      case True
      then show ?thesis using kv by (simp add: lookup_assign)
    next
      case False
      with e have el: "e \<in> set ?l" by simp
      from ok_Value[OF w el] obtain val' where v': "Value c e = Some val'"
        "se (key val') \<longrightarrow> map_lookup se (items c) (key val') = Some e" by blast
      have "map_lookup se ?m (key val') = Some e" if s: "se (key val')"
      proof -
        have "key val' \<noteq> k" using n v'(2) s by auto
        with v'(2) s show ?thesis by (simp add: lookup_assign)
      qed
      then show ?thesis using v'(1) False by simp
    qed
  qed
  let ?c' = "c\<lparr>Value := (Value c)(nxt c \<mapsto> val), evictList := nxt c # evictList c,
               items := map_assign se (items c) k (nxt c), nxt := Suc (nxt c)\<rparr>"
  have f: "evictList ?c' = nxt c # ?l" "items ?c' = ?m" "Value ?c' = (Value c)(nxt c \<mapsto> val)"
    "nxt ?c' = Suc (nxt c)" "capacity ?c' = capacity c" by simp_all
  show ?thesis unfolding cache_ok_def f using 1 2 3 4 5 6 by blast
qed

lemma ok_touch:
  assumes w: "cache_ok se c" and i: "map_lookup se (items c) k = Some e" and kv: "key val = k"
  shows "cache_ok se (c\<lparr>Value := (Value c)(e \<mapsto> val), evictList := MoveToFront e (evictList c)\<rparr>)"
proof -
  from ok_items[OF w i] obtain old where
    e: "e \<in> set (evictList c)" "Value c e = Some old" "key old = k" by blast
  have 5: "\<forall>k' e'. map_lookup se (items c) k' = Some e' \<longrightarrow>
        e' \<in> set (evictList c) \<and> (\<exists>val'. ((Value c)(e \<mapsto> val)) e' = Some val' \<and> key val' = k')"
  proof (intro allI impI)
    fix k' e' assume a: "map_lookup se (items c) k' = Some e'"
    from ok_items[OF w a] obtain v' where
      v': "e' \<in> set (evictList c)" "Value c e' = Some v'" "key v' = k'" by blast
    show "e' \<in> set (evictList c) \<and> (\<exists>val'. ((Value c)(e \<mapsto> val)) e' = Some val' \<and> key val' = k')"
    proof (cases "e' = e")
      case True
      then have "k' = k" using v' e by simp
      with True v' kv show ?thesis by simp
    next
      case False
      with v' show ?thesis by simp
    qed
  qed
  have 6: "\<forall>e' \<in> set (evictList c). \<exists>val'. ((Value c)(e \<mapsto> val)) e' = Some val' \<and>
        (se (key val') \<longrightarrow> map_lookup se (items c) (key val') = Some e')"
  proof
    fix e' assume a: "e' \<in> set (evictList c)"
    from ok_Value[OF w a] obtain v' where v': "Value c e' = Some v'"
      "se (key v') \<longrightarrow> map_lookup se (items c) (key v') = Some e'" by blast
    show "\<exists>val'. ((Value c)(e \<mapsto> val)) e' = Some val' \<and>
        (se (key val') \<longrightarrow> map_lookup se (items c) (key val') = Some e')"
    proof (cases "e' = e")
      case True
      with i kv show ?thesis by simp
    next
      case False
      with v' show ?thesis by simp
    qed
  qed
  let ?c' = "c\<lparr>Value := (Value c)(e \<mapsto> val), evictList := MoveToFront e (evictList c)\<rparr>"
  have f: "evictList ?c' = MoveToFront e (evictList c)" "items ?c' = items c"
    "Value ?c' = (Value c)(e \<mapsto> val)" "nxt ?c' = nxt c" "capacity ?c' = capacity c" by simp_all
  have 1: "distinct (MoveToFront e (evictList c))"
    "\<forall>x \<in> set (MoveToFront e (evictList c)). x < nxt c" "1 \<le> capacity c"
    "Len (MoveToFront e (evictList c)) \<le> capacity c" using w by (simp_all add: cache_ok_def)
  have a5: "\<forall>k' e'. map_lookup se (items c) k' = Some e' \<longrightarrow>
        e' \<in> set (MoveToFront e (evictList c)) \<and>
        (\<exists>val'. ((Value c)(e \<mapsto> val)) e' = Some val' \<and> key val' = k')" using 5 by simp
  have a6: "\<forall>e' \<in> set (MoveToFront e (evictList c)). \<exists>val'. ((Value c)(e \<mapsto> val)) e' = Some val' \<and>
        (se (key val') \<longrightarrow> map_lookup se (items c) (key val') = Some e')" using 6 by simp
  show ?thesis unfolding cache_ok_def f using 1 a5 a6 by blast
qed

lemma ok_move:
  assumes w: "cache_ok se c"
  shows "cache_ok se (c\<lparr>evictList := MoveToFront e (evictList c)\<rparr>)"
  using w unfolding cache_ok_def by simp

subsection \<open>The index while the keys are equal to themselves\<close>

lemma index_ok_evicted:
  assumes "index_ok se c"
  shows "index_ok se (c\<lparr>evictList := butlast (evictList c),
                        items := map_delete se (items c) k\<rparr>)"
proof -
  have "set (entries (c\<lparr>evictList := butlast (evictList c), items := map_delete se (items c) k\<rparr>))
        \<subseteq> set (entries c)"
    by (auto simp: set_entries dest: in_set_butlastD)
  then show ?thesis using assms
    by (auto simp: index_ok_def distinct_delete set_delete)
qed

lemma index_ok_push:
  assumes i: "index_ok se c" and s: "se k" and n: "map_lookup se (items c) k = None"
    and kv: "key val = k"
  shows "index_ok se (c\<lparr>Value := (Value c)(nxt c \<mapsto> val), evictList := nxt c # evictList c,
               items := map_assign se (items c) k (nxt c), nxt := Suc (nxt c)\<rparr>)"
proof -
  let ?c' = "c\<lparr>Value := (Value c)(nxt c \<mapsto> val), evictList := nxt c # evictList c,
               items := map_assign se (items c) k (nxt c), nxt := Suc (nxt c)\<rparr>"
  have k: "k \<notin> fst ` set (items c)" using n s by (simp add: lookup_None_keys)
  have m: "items ?c' = items c @ [(k, nxt c)]" by (simp add: assign_miss[OF n])
  have "set (entries ?c') \<subseteq> insert val (set (entries c))"
    by (auto simp: set_entries split: if_splits)
  then have 3: "\<forall>x \<in> set (entries ?c'). se (key x)"
    using i s kv by (auto simp: index_ok_def)
  have 1: "distinct (map fst (items ?c'))" using i k unfolding m by (simp add: index_ok_def)
  have 2: "\<forall>p \<in> set (items ?c'). se (fst p)" using i s unfolding m by (auto simp: index_ok_def)
  show ?thesis unfolding index_ok_def using 1 2 3 by blast
qed

lemma index_ok_touch:
  assumes i: "index_ok se c" and s: "se (key val)"
  shows "index_ok se (c\<lparr>Value := (Value c)(e \<mapsto> val), evictList := MoveToFront e (evictList c)\<rparr>)"
proof -
  have "set (entries (c\<lparr>Value := (Value c)(e \<mapsto> val), evictList := MoveToFront e (evictList c)\<rparr>))
        \<subseteq> insert val (set (entries c))"
    by (auto simp: set_entries split: if_splits)
  then show ?thesis using i s by (auto simp: index_ok_def)
qed

lemma index_ok_move:
  "index_ok se c \<Longrightarrow> index_ok se (c\<lparr>evictList := MoveToFront e (evictList c)\<rparr>)"
  by (simp add: index_ok_def set_entries)

subsection \<open>The calls\<close>

lemma entries_butlast:
  assumes "cache_ok se c"
  shows "List.map_filter (Value c) (butlast (evictList c)) = butlast (entries c)"
proof -
  have "\<forall>e \<in> set (butlast (evictList c)). \<exists>v. Value c e = Some v"
    using ok_Value[OF assms] by (blast dest: in_set_butlastD)
  then show ?thesis
    by (simp add: map_filter_total ok_entries[OF assms] map_butlast)
qed

lemma Set_absent:
  assumes w: "cache_ok se c" and n: "map_lookup se (items c) k = None"
  shows "\<exists>c'. Set se now k v c = Inr c' \<and> cache_ok se c' \<and> capacity c' = capacity c \<and>
           ttl c' = ttl c \<and> (index_ok se c \<and> se k \<longrightarrow> index_ok se c') \<and>
           entries c' = \<lparr>key = k, value' = v, expiredAt = now + ttl c\<rparr> #
             (if Len (evictList c) \<ge> capacity c then butlast (entries c) else entries c)"
proof (cases "Len (evictList c) \<ge> capacity c")
  case True
  let ?l = "evictList c"
  have ne: "?l \<noteq> []" by (rule ok_full_nonempty[OF w True])
  then have "last ?l \<in> set ?l" by simp
  from ok_Value[OF w this] obtain val where val: "Value c (last ?l) = Some val" by blast
  define c1 where "c1 = c\<lparr>evictList := butlast ?l, items := map_delete se (items c) (key val)\<rparr>"
  have ev: "evict se c = Inr c1" unfolding c1_def by (rule evict_full[OF w True val])
  have w1: "cache_ok se c1" unfolding c1_def by (rule ok_evicted[OF w ne val])
  have "Len ?l \<le> capacity c" using w by (simp add: cache_ok_def)
  moreover have "length (butlast ?l) < length ?l" using ne by simp
  ultimately have "Len (butlast ?l) < capacity c" unfolding Len_def by linarith
  then have lt: "Len (evictList c1) < capacity c1" by (simp add: c1_def)
  have n1: "map_lookup se (items c1) k = None" using n by (simp add: c1_def lookup_delete)
  let ?val = "\<lparr>key = k, value' = v, expiredAt = now + ttl c\<rparr>"
  define c2 where "c2 = c1\<lparr>Value := (Value c1)(nxt c1 \<mapsto> ?val), evictList := nxt c1 # evictList c1,
               items := map_assign se (items c1) k (nxt c1), nxt := Suc (nxt c1)\<rparr>"
  have t1: "ttl c1 = ttl c" by (simp add: c1_def)
  have s: "Set se now k v c = Inr c2" by (simp add: Set_def n ev c2_def Let_def t1)
  have w2: "cache_ok se c2" unfolding c2_def by (rule ok_push[OF w1 lt n1]) simp
  have i2: "index_ok se c2" if i: "index_ok se c" and sk: "se k"
  proof -
    have "index_ok se c1" unfolding c1_def by (rule index_ok_evicted[OF i])
    from index_ok_push[OF this sk n1, of ?val] show ?thesis by (simp add: c2_def)
  qed
  have fresh: "nxt c1 \<notin> set (evictList c1)" using w1 by (auto simp: cache_ok_def)
  have "entries c2 = ?val # List.map_filter (Value c1) (evictList c1)"
    by (simp add: entries_def c2_def List.map_filter_simps map_filter_upd_fresh[OF fresh])
  also have "List.map_filter (Value c1) (evictList c1) = butlast (entries c)"
    using entries_butlast[OF w] by (simp add: c1_def)
  finally have e2: "entries c2 = ?val # butlast (entries c)" .
  have "capacity c2 = capacity c" "ttl c2 = ttl c" by (simp_all add: c2_def c1_def)
  with s w2 e2 i2 True show ?thesis by simp
next
  case False
  then have lt: "Len (evictList c) < capacity c" by simp
  have ev: "evict se c = Inr c" by (rule evict_noop[OF lt])
  let ?val = "\<lparr>key = k, value' = v, expiredAt = now + ttl c\<rparr>"
  define c2 where "c2 = c\<lparr>Value := (Value c)(nxt c \<mapsto> ?val), evictList := nxt c # evictList c,
               items := map_assign se (items c) k (nxt c), nxt := Suc (nxt c)\<rparr>"
  have s: "Set se now k v c = Inr c2" by (simp add: Set_def n ev c2_def Let_def)
  have w2: "cache_ok se c2" unfolding c2_def by (rule ok_push[OF w lt n]) simp
  have i2: "index_ok se c2" if i: "index_ok se c" and sk: "se k"
    using index_ok_push[OF i sk n, of ?val] by (simp add: c2_def)
  have fresh: "nxt c \<notin> set (evictList c)" using w by (auto simp: cache_ok_def)
  have e2: "entries c2 = ?val # entries c"
    by (simp add: entries_def c2_def List.map_filter_simps map_filter_upd_fresh[OF fresh])
  have "capacity c2 = capacity c" "ttl c2 = ttl c" by (simp_all add: c2_def)
  with s w2 e2 i2 False show ?thesis by simp
qed

lemma entries_touch:
  assumes w: "cache_ok se c" and i: "map_lookup se (items c) k = Some e"
  shows "List.map_filter (Value c) (remove1 e (evictList c)) = filter (\<lambda>x. key x \<noteq> k) (entries c)"
proof -
  let ?f = "\<lambda>e. the (Value c e)"
  let ?l = "evictList c"
  have sk: "se k" using lookup_Some[OF i] by simp
  have d: "distinct ?l" using w by (simp add: cache_ok_def)
  have tot: "\<forall>x \<in> set (remove1 e ?l). \<exists>v. Value c x = Some v"
    using ok_Value[OF w] by (blast dest: notin_set_remove1)
  have keq: "(key (?f x) \<noteq> k) = (e \<noteq> x)" if x: "x \<in> set ?l" for x
  proof -
    from ok_Value[OF w x] obtain val where val: "Value c x = Some val"
      "se (key val) \<longrightarrow> map_lookup se (items c) (key val) = Some x" by blast
    from ok_items[OF w i] obtain val' where val': "Value c e = Some val'" "key val' = k"
      by blast
    show ?thesis
    proof (cases "e = x")
      case True
      with val val' show ?thesis by simp
    next
      case False
      have "key val \<noteq> k"
      proof
        assume "key val = k"
        with val(2) i sk have "x = e" by simp
        with False show False by simp
      qed
      with val False show ?thesis by simp
    qed
  qed
  have r: "remove1 e ?l = filter (\<lambda>x. e \<noteq> x) ?l"
    using d by (simp add: distinct_remove1_removeAll removeAll_filter_not_eq)
  have "filter (\<lambda>x. key x \<noteq> k) (map ?f ?l) = map ?f (filter (\<lambda>x. key (?f x) \<noteq> k) ?l)"
    by (simp add: filter_map comp_def)
  also have "filter (\<lambda>x. key (?f x) \<noteq> k) ?l = filter (\<lambda>x. e \<noteq> x) ?l"
    by (rule filter_cong[OF refl]) (rule keq)
  finally have "filter (\<lambda>x. key x \<noteq> k) (entries c) = map ?f (remove1 e ?l)"
    by (simp add: ok_entries[OF w] r)
  then show ?thesis by (simp add: map_filter_total[OF tot])
qed

lemma Set_present:
  assumes w: "cache_ok se c" and i: "map_lookup se (items c) k = Some e"
  shows "\<exists>c'. Set se now k v c = Inr c' \<and> cache_ok se c' \<and> capacity c' = capacity c \<and>
           ttl c' = ttl c \<and> (index_ok se c \<longrightarrow> index_ok se c') \<and>
           items c' = items c \<and> Len (evictList c') = Len (evictList c) \<and>
           set (evictList c') = set (evictList c) \<and>
           entries c' = \<lparr>key = k, value' = v, expiredAt = now + ttl c\<rparr> #
             filter (\<lambda>x. key x \<noteq> k) (entries c)"
proof -
  let ?val = "\<lparr>key = k, value' = v, expiredAt = now + ttl c\<rparr>"
  define c2 where "c2 = c\<lparr>Value := (Value c)(e \<mapsto> ?val), evictList := MoveToFront e (evictList c)\<rparr>"
  have sk: "se k" using lookup_Some[OF i] by simp
  have s: "Set se now k v c = Inr c2" by (simp add: Set_def i c2_def Let_def)
  have w2: "cache_ok se c2" unfolding c2_def by (rule ok_touch[OF w i]) simp
  have i2: "index_ok se c2" if "index_ok se c"
    unfolding c2_def by (rule index_ok_touch[OF that]) (simp add: sk)
  have el: "e \<in> set (evictList c)" using ok_items[OF w i] by blast
  have d: "distinct (evictList c)" using w by (simp add: cache_ok_def)
  have fresh: "e \<notin> set (remove1 e (evictList c))" using d by simp
  have "entries c2 = ?val # List.map_filter (Value c) (remove1 e (evictList c))"
    by (simp add: entries_def c2_def MoveToFront_eq[OF el] List.map_filter_simps
        map_filter_upd_fresh[OF fresh])
  then have e2: "entries c2 = ?val # filter (\<lambda>x. key x \<noteq> k) (entries c)"
    by (simp add: entries_touch[OF w i])
  have "capacity c2 = capacity c" "ttl c2 = ttl c" "items c2 = items c"
    "Len (evictList c2) = Len (evictList c)" "set (evictList c2) = set (evictList c)"
    by (simp_all add: c2_def)
  with s w2 e2 i2 show ?thesis by simp
qed

lemma Get_missing:
  assumes w: "cache_ok se c" and m: "\<not> se k \<or> k \<notin> key ` set (entries c)"
  shows "Get se now k c = Inr ((0, False), c)"
proof -
  have "map_lookup se (items c) k = None"
  proof (cases "se k")
    case True
    with m show ?thesis by (simp add: ok_lookup_None[OF w])
  next
    case False
    then show ?thesis by (rule lookup_not_se)
  qed
  then show ?thesis by (simp add: Get_def)
qed

lemma Get_expired:
  assumes w: "cache_ok se c" and m: "val \<in> set (entries c)" and s: "se (key val)"
    and t: "ttl c \<noteq> 0" and x: "expired val now"
  shows "Get se now (key val) c = Inr ((0, False), c)"
proof -
  from entries_lookup[OF w m s] obtain e where
    "map_lookup se (items c) (key val) = Some e" "Value c e = Some val" by blast
  then show ?thesis using t x by (simp add: Get_def)
qed

lemma Get_found:
  assumes w: "cache_ok se c" and m: "val \<in> set (entries c)" and s: "se (key val)"
    and t: "ttl c = 0 \<or> \<not> expired val now"
  shows "\<exists>c'. Get se now (key val) c = Inr ((value' val, True), c') \<and> cache_ok se c' \<and>
           capacity c' = capacity c \<and> ttl c' = ttl c \<and> items c' = items c \<and>
           entries c' = val # filter (\<lambda>x. key x \<noteq> key val) (entries c)"
proof -
  from entries_lookup[OF w m s] obtain e where
    e: "map_lookup se (items c) (key val) = Some e" "Value c e = Some val" by blast
  define c2 where "c2 = c\<lparr>evictList := MoveToFront e (evictList c)\<rparr>"
  have g: "Get se now (key val) c = Inr ((value' val, True), c2)"
    using e t by (auto simp: Get_def c2_def)
  have w2: "cache_ok se c2" unfolding c2_def by (rule ok_move[OF w])
  have el: "e \<in> set (evictList c)" using ok_items[OF w e(1)] by blast
  have "entries c2 = val # List.map_filter (Value c) (remove1 e (evictList c))"
    by (simp add: entries_def c2_def MoveToFront_eq[OF el] List.map_filter_simps e(2))
  then have e2: "entries c2 = val # filter (\<lambda>x. key x \<noteq> key val) (entries c)"
    by (simp add: entries_touch[OF w e(1)])
  have "capacity c2 = capacity c" "ttl c2 = ttl c" "items c2 = items c" by (simp_all add: c2_def)
  with g w2 e2 show ?thesis by simp
qed

lemma Get_ok:
  assumes w: "cache_ok se c"
  shows "\<exists>r c'. Get se now k c = Inr (r, c') \<and> cache_ok se c' \<and> capacity c' = capacity c \<and>
           ttl c' = ttl c \<and> (index_ok se c \<longrightarrow> index_ok se c') \<and>
           set (entries c') = set (entries c) \<and> length (entries c') = length (entries c)"
proof (cases "map_lookup se (items c) k")
  case None
  then show ?thesis using w by (auto simp: Get_def)
next
  case (Some e)
  from ok_items[OF w Some] obtain val where v: "Value c e = Some val" by blast
  show ?thesis
  proof (cases "ttl c \<noteq> 0 \<and> expired val now")
    case True
    then show ?thesis using Some v w by (auto simp: Get_def)
  next
    case False
    let ?c' = "c\<lparr>evictList := MoveToFront e (evictList c)\<rparr>"
    have w': "cache_ok se ?c'" by (rule ok_move[OF w])
    have i': "index_ok se c \<longrightarrow> index_ok se ?c'" using index_ok_move by blast
    have g: "Get se now k c = Inr ((value' val, True), ?c')"
      using Some v False by (auto simp: Get_def)
    have s: "set (entries ?c') = set (entries c)" by (simp add: set_entries)
    have "int (length (entries ?c')) = int (length (entries c))"
      using ok_length_entries[OF w'] ok_length_entries[OF w] by simp
    then have l: "length (entries ?c') = length (entries c)" by simp
    have "capacity ?c' = capacity c" "ttl ?c' = ttl c" by simp_all
    with g w' i' s l show ?thesis by blast
  qed
qed

lemma Set_ok:
  assumes w: "cache_ok se c"
  shows "\<exists>c'. Set se now k v c = Inr c' \<and> cache_ok se c' \<and> capacity c' = capacity c \<and>
           ttl c' = ttl c \<and> (index_ok se c \<and> se k \<longrightarrow> index_ok se c')"
proof (cases "map_lookup se (items c) k")
  case None
  from Set_absent[OF w None, of now v] show ?thesis by blast
next
  case (Some e)
  from Set_present[OF w Some, of now v] show ?thesis by blast
qed

lemma exec_ok:
  assumes w: "cache_ok se c"
  shows "\<exists>c'. exec se x c = Inr c' \<and> cache_ok se c' \<and> capacity c' = capacity c \<and>
           ttl c' = ttl c \<and>
           (index_ok se c \<and> (is_CallSet x \<longrightarrow> se (call_key x)) \<longrightarrow> index_ok se c')"
proof (cases x)
  case (CallSet now k v)
  then show ?thesis using Set_ok[OF w, of now k v] by auto
next
  case (CallGet now k)
  from Get_ok[OF w, of now k] obtain r c' where
    "Get se now k c = Inr (r, c')" "cache_ok se c'" "capacity c' = capacity c" "ttl c' = ttl c"
    "index_ok se c \<longrightarrow> index_ok se c'" by blast
  then show ?thesis using CallGet by simp
qed

lemma run_ok:
  "cache_ok se c \<Longrightarrow>
   \<exists>c'. run se xs c = Inr c' \<and> cache_ok se c' \<and> capacity c' = capacity c \<and> ttl c' = ttl c \<and>
     (index_ok se c \<and> (\<forall>x \<in> set xs. is_CallSet x \<longrightarrow> se (call_key x)) \<longrightarrow> index_ok se c')"
proof (induction xs arbitrary: c)
  case Nil
  then show ?case by simp
next
  case (Cons x xs)
  from exec_ok[OF Cons.prems, of x] obtain c1 where
    c1: "exec se x c = Inr c1" "cache_ok se c1" "capacity c1 = capacity c" "ttl c1 = ttl c"
    "index_ok se c \<and> (is_CallSet x \<longrightarrow> se (call_key x)) \<longrightarrow> index_ok se c1" by blast
  from Cons.IH[OF c1(2)] obtain c' where
    c': "run se xs c1 = Inr c'" "cache_ok se c'" "capacity c' = capacity c1" "ttl c' = ttl c1"
    "index_ok se c1 \<and> (\<forall>x \<in> set xs. is_CallSet x \<longrightarrow> se (call_key x)) \<longrightarrow> index_ok se c'"
    by blast
  have "run se (x # xs) c = Inr c'" using c1(1) c'(1) by simp
  moreover have "index_ok se c \<and> (\<forall>y \<in> set (x # xs). is_CallSet y \<longrightarrow> se (call_key y))
      \<longrightarrow> index_ok se c'" using c1(5) c'(5) by simp
  ultimately show ?case using c'(2,3,4) c1(3,4) by simp
qed

lemma reachable_ok: "run se calls (fst (New opts)) = Inr c \<Longrightarrow> cache_ok se c"
  using run_ok[OF ok_New, of se calls opts] by auto

subsection \<open>The entries after a call\<close>

lemma take_cons_butlast:
  assumes "1 \<le> n" "length es \<le> n"
  shows "(if n \<le> length es then butlast es else es) = take (n - 1) es"
  using assms by (auto simp: butlast_conv_take)

lemma take_append_take: "take n (A @ take n B) = take n (A @ B)"
  by (simp add: min_def)

lemma ok_lookup_notin:
  assumes w: "cache_ok se c" and n: "k \<notin> key ` set (entries c)"
  shows "map_lookup se (items c) k = None"
proof (cases "se k")
  case True
  with n show ?thesis by (simp add: ok_lookup_None[OF w])
next
  case False
  then show ?thesis by (rule lookup_not_se)
qed

lemma ok_lookup_in:
  assumes w: "cache_ok se c" and i: "map_lookup se (items c) k = Some e"
  shows "k \<in> key ` set (entries c)"
proof -
  from ok_items[OF w i] obtain val where "e \<in> set (evictList c)" "Value c e = Some val" "key val = k"
    by blast
  then show ?thesis by (force simp: set_entries image_iff)
qed

lemma Set_absent_take:
  assumes w: "cache_ok se c" and n: "map_lookup se (items c) k = None"
  shows "\<exists>c'. Set se now k v c = Inr c' \<and> cache_ok se c' \<and> capacity c' = capacity c \<and>
           ttl c' = ttl c \<and>
           entries c' = take (nat (capacity c))
             (\<lparr>key = k, value' = v, expiredAt = now + ttl c\<rparr> # entries c)"
proof -
  let ?n = "nat (capacity c)"
  have c1: "1 \<le> capacity c" and le: "Len (evictList c) \<le> capacity c"
    using w by (simp_all add: cache_ok_def)
  have n1: "1 \<le> ?n" using c1 by simp
  have le': "length (entries c) \<le> ?n" by (rule ok_length_le[OF w])
  have full: "(capacity c \<le> Len (evictList c)) = (?n \<le> length (entries c))"
    using c1 by (simp add: ok_length_entries[OF w] nat_le_iff)
  from Set_absent[OF w n, of now v] obtain c' where
    c': "Set se now k v c = Inr c'" "cache_ok se c'" "capacity c' = capacity c" "ttl c' = ttl c"
    "entries c' = \<lparr>key = k, value' = v, expiredAt = now + ttl c\<rparr> #
             (if Len (evictList c) \<ge> capacity c then butlast (entries c) else entries c)" by blast
  have "(if Len (evictList c) \<ge> capacity c then butlast (entries c) else entries c) =
        take (?n - 1) (entries c)"
    unfolding full by (rule take_cons_butlast[OF n1 le'])
  moreover have "take ?n (\<lparr>key = k, value' = v, expiredAt = now + ttl c\<rparr> # entries c) =
      \<lparr>key = k, value' = v, expiredAt = now + ttl c\<rparr> # take (?n - 1) (entries c)"
    using n1 by (simp add: take_Cons')
  ultimately show ?thesis using c' by auto
qed

lemma run_sets_entries:
  assumes "cache_ok se c" and "\<forall>x \<in> set xs. is_CallSet x" and "distinct (map call_key xs)"
    and "key ` set (entries c) \<inter> call_key ` set xs = {}"
  shows "\<exists>c'. run se xs c = Inr c' \<and> cache_ok se c' \<and> capacity c' = capacity c \<and>
           ttl c' = ttl c \<and>
           entries c' = take (nat (capacity c)) (rev (map (call_entry (ttl c)) xs) @ entries c)"
  using assms
proof (induction xs arbitrary: c)
  case Nil
  have "length (entries c) \<le> nat (capacity c)" by (rule ok_length_le[OF Nil.prems(1)])
  then show ?case using Nil.prems(1) by simp
next
  case (Cons x xs)
  let ?n = "nat (capacity c)"
  from Cons.prems(2) obtain t k v where x: "x = CallSet t k v" by (cases x) auto
  have "k \<notin> key ` set (entries c)" using Cons.prems(4) x by auto
  then have n: "map_lookup se (items c) k = None" by (rule ok_lookup_notin[OF Cons.prems(1)])
  from Set_absent_take[OF Cons.prems(1) n, of t v] obtain c1 where
    c1: "Set se t k v c = Inr c1" "cache_ok se c1" "capacity c1 = capacity c" "ttl c1 = ttl c"
    "entries c1 = take ?n (call_entry (ttl c) x # entries c)"
    by (auto simp: call_entry_def x)
  have sub: "set (entries c1) \<subseteq> insert (call_entry (ttl c) x) (set (entries c))"
    unfolding c1(5) using set_take_subset[of ?n "call_entry (ttl c) x # entries c"] by auto
  have kx: "key (call_entry (ttl c) x) = call_key x" by (simp add: call_entry_def)
  have nx: "call_key x \<notin> call_key ` set xs" using Cons.prems(3) by auto
  have old: "key ` set (entries c) \<inter> call_key ` set xs = {}" using Cons.prems(4) by auto
  have dj: "key ` set (entries c1) \<inter> call_key ` set xs = {}"
  proof (rule ccontr)
    assume "key ` set (entries c1) \<inter> call_key ` set xs \<noteq> {}"
    then obtain val where val: "val \<in> set (entries c1)" "key val \<in> call_key ` set xs" by blast
    from val(1) sub have "val = call_entry (ttl c) x \<or> val \<in> set (entries c)" by blast
    then show False
    proof
      assume "val = call_entry (ttl c) x"
      with kx val(2) nx show False by simp
    next
      assume "val \<in> set (entries c)"
      with val(2) old show False by blast
    qed
  qed
  have sx: "\<forall>x \<in> set xs. is_CallSet x" "distinct (map call_key xs)" using Cons.prems(2,3) by auto
  from Cons.IH[OF c1(2) sx dj] obtain c' where
    c': "run se xs c1 = Inr c'" "cache_ok se c'" "capacity c' = capacity c1" "ttl c' = ttl c1"
    "entries c' = take (nat (capacity c1)) (rev (map (call_entry (ttl c1)) xs) @ entries c1)" by blast
  have "entries c' = take ?n (rev (map (call_entry (ttl c)) xs) @ take ?n (call_entry (ttl c) x # entries c))"
    using c'(5) c1 by simp
  also have "\<dots> = take ?n (rev (map (call_entry (ttl c)) (x # xs)) @ entries c)"
    unfolding take_append_take by simp
  finally have e: "entries c' = take ?n (rev (map (call_entry (ttl c)) (x # xs)) @ entries c)" .
  have "run se (x # xs) c = Inr c'" using c1(1) c'(1) x by simp
  with c' c1 e show ?case by simp
qed

lemma Get_call_entry:
  assumes w: "cache_ok se c" and m: "call_entry (ttl c) x \<in> set (entries c)"
    and s: "se (call_key x)"
  shows "if ttl c \<noteq> 0 \<and> call_time x + ttl c < t then Get se t (call_key x) c = Inr ((0, False), c)
         else \<exists>c'. Get se t (call_key x) c = Inr ((call_value x, True), c')"
proof (cases "ttl c \<noteq> 0 \<and> call_time x + ttl c < t")
  case True
  have sk: "se (key (call_entry (ttl c) x))" using s by (simp add: call_entry_def)
  from True have "expired (call_entry (ttl c) x) t" by (simp add: expired_def call_entry_def)
  from Get_expired[OF w m sk _ this] True show ?thesis by (simp add: call_entry_def)
next
  case False
  have sk: "se (key (call_entry (ttl c) x))" using s by (simp add: call_entry_def)
  from False have "ttl c = 0 \<or> \<not> expired (call_entry (ttl c) x) t"
    by (auto simp: expired_def call_entry_def)
  from Get_found[OF w m sk this] obtain c' where
    "Get se t (key (call_entry (ttl c) x)) c = Inr ((value' (call_entry (ttl c) x), True), c')"
    by blast
  then have "Get se t (call_key x) c = Inr ((call_value x, True), c')" by (simp add: call_entry_def)
  with False show ?thesis by auto
qed

lemma Get_entry:
  assumes w: "cache_ok se c" and m: "\<lparr>key = k, value' = v, expiredAt = x\<rparr> \<in> set (entries c)"
    and s: "se k"
  shows "if ttl c \<noteq> 0 \<and> x < t then Get se t k c = Inr ((0, False), c)
         else \<exists>c'. Get se t k c = Inr ((v, True), c')"
proof -
  have "call_entry (ttl c) (CallSet (x - ttl c) k v) \<in> set (entries c)"
    using m by (simp add: call_entry_def)
  from Get_call_entry[OF w this, of t] s show ?thesis by (simp cong: if_cong)
qed

lemma Set_entries_cons:
  assumes w: "cache_ok se c"
  shows "\<exists>c1 r. Set se now k v c = Inr c1 \<and> cache_ok se c1 \<and> capacity c1 = capacity c \<and>
           ttl c1 = ttl c \<and> entries c1 = \<lparr>key = k, value' = v, expiredAt = now + ttl c\<rparr> # r"
proof (cases "map_lookup se (items c) k")
  case None
  from Set_absent[OF w None, of now v] show ?thesis by auto
next
  case (Some e)
  from Set_present[OF w Some, of now v] show ?thesis by auto
qed

lemma Set_entries_head:
  assumes w: "cache_ok se c"
  shows "\<exists>c1. Set se now k v c = Inr c1 \<and> cache_ok se c1 \<and> capacity c1 = capacity c \<and>
           ttl c1 = ttl c \<and> \<lparr>key = k, value' = v, expiredAt = now + ttl c\<rparr> \<in> set (entries c1)"
  using Set_entries_cons[OF w, of now k v] by auto

lemma run_keeps_entry:
  assumes "cache_ok se c" and "val \<in> set (entries c)"
    and "\<forall>x \<in> set mid. is_CallSet x \<longrightarrow> call_key x \<noteq> key val"
    and "int (length (entries c)) + int (length (filter is_CallSet mid)) \<le> capacity c"
  shows "\<exists>c'. run se mid c = Inr c' \<and> cache_ok se c' \<and> ttl c' = ttl c \<and> val \<in> set (entries c')"
  using assms
proof (induction mid arbitrary: c)
  case Nil
  then show ?case by simp
next
  case (Cons x mid)
  note w = Cons.prems(1) and m = Cons.prems(2)
  have rest: "\<forall>x \<in> set mid. is_CallSet x \<longrightarrow> call_key x \<noteq> key val" using Cons.prems(3) by simp
  have "\<exists>c1. exec se x c = Inr c1 \<and> cache_ok se c1 \<and> ttl c1 = ttl c \<and> capacity c1 = capacity c \<and>
          val \<in> set (entries c1) \<and>
          int (length (entries c1)) + int (length (filter is_CallSet mid)) \<le> capacity c"
  proof (cases x)
    case (CallGet now k)
    from Get_ok[OF w, of now k] obtain r c1 where
      c1: "Get se now k c = Inr (r, c1)" "cache_ok se c1" "capacity c1 = capacity c" "ttl c1 = ttl c"
      "set (entries c1) = set (entries c)" "length (entries c1) = length (entries c)" by blast
    have "int (length (entries c1)) + int (length (filter is_CallSet mid)) \<le> capacity c"
      using Cons.prems(4) c1(6) CallGet by simp
    with c1 m CallGet show ?thesis by simp
  next
    case (CallSet now k v)
    have kne: "k \<noteq> key val" using Cons.prems(3) CallSet by simp
    have room: "int (length (entries c)) + 1 + int (length (filter is_CallSet mid)) \<le> capacity c"
      using Cons.prems(4) CallSet by simp
    show ?thesis
    proof (cases "map_lookup se (items c) k")
      case None
      have nf: "\<not> capacity c \<le> Len (evictList c)"
        using room by (simp add: ok_length_entries[OF w])
      from Set_absent[OF w None, of now v] nf obtain c1 where
        c1: "Set se now k v c = Inr c1" "cache_ok se c1" "capacity c1 = capacity c" "ttl c1 = ttl c"
        "entries c1 = \<lparr>key = k, value' = v, expiredAt = now + ttl c\<rparr> # entries c" by auto
      have "int (length (entries c1)) + int (length (filter is_CallSet mid)) \<le> capacity c"
        using room by (simp add: c1(5))
      with c1 m CallSet show ?thesis by simp
    next
      case (Some e)
      from Set_present[OF w Some, of now v] obtain c1 where
        c1: "Set se now k v c = Inr c1" "cache_ok se c1" "capacity c1 = capacity c" "ttl c1 = ttl c"
        "Len (evictList c1) = Len (evictList c)"
        "entries c1 = \<lparr>key = k, value' = v, expiredAt = now + ttl c\<rparr> #
             filter (\<lambda>x. key x \<noteq> k) (entries c)" by blast
      have "val \<in> set (entries c1)" using m kne by (simp add: c1(6))
      moreover have "int (length (entries c1)) = int (length (entries c))"
        using c1(5) by (simp add: ok_length_entries[OF w] ok_length_entries[OF c1(2)])
      ultimately show ?thesis using c1(1-4) room CallSet by simp
    qed
  qed
  then obtain c1 where c1: "exec se x c = Inr c1" "cache_ok se c1" "ttl c1 = ttl c"
    "capacity c1 = capacity c" "val \<in> set (entries c1)"
    "int (length (entries c1)) + int (length (filter is_CallSet mid)) \<le> capacity c1" by auto
  from Cons.IH[OF c1(2) c1(5) rest c1(6)] obtain c' where
    "run se mid c1 = Inr c'" "cache_ok se c'" "ttl c' = ttl c1" "val \<in> set (entries c')" by blast
  with c1(1,3) show ?case by simp
qed

lemma Set_Set_entries:
  assumes w: "cache_ok se c" and cap: "capacity c = 2" and ne: "A \<noteq> B"
  shows "\<exists>c1 c2. Set se tA A vA c = Inr c1 \<and> Set se tB B vB c1 = Inr c2 \<and> cache_ok se c2 \<and>
           capacity c2 = 2 \<and> ttl c2 = ttl c \<and>
           entries c2 = [\<lparr>key = B, value' = vB, expiredAt = tB + ttl c\<rparr>,
                         \<lparr>key = A, value' = vA, expiredAt = tA + ttl c\<rparr>]"
proof -
  let ?eA = "\<lparr>key = A, value' = vA, expiredAt = tA + ttl c\<rparr>"
  let ?eB = "\<lparr>key = B, value' = vB, expiredAt = tB + ttl c\<rparr>"
  from Set_entries_cons[OF w, of tA A vA] obtain c1 r where
    c1: "Set se tA A vA c = Inr c1" "cache_ok se c1" "capacity c1 = 2" "ttl c1 = ttl c"
    "entries c1 = ?eA # r" by (auto simp: cap)
  have "length (entries c1) \<le> 2" using ok_length_le[OF c1(2)] c1(3) by simp
  then have lr: "length r \<le> 1" by (simp add: c1(5))
  show ?thesis
  proof (cases "map_lookup se (items c1) B")
    case None
    from Set_absent_take[OF c1(2) None, of tB vB] obtain c2 where
      c2: "Set se tB B vB c1 = Inr c2" "cache_ok se c2" "capacity c2 = 2" "ttl c2 = ttl c"
      "entries c2 = take 2 (?eB # ?eA # r)" by (auto simp: c1)
    have "take 2 (?eB # ?eA # r) = [?eB, ?eA]" by (simp add: numeral_2_eq_2)
    with c1(1) c2 show ?thesis by auto
  next
    case (Some e)
    from Set_present[OF c1(2) Some, of tB vB] obtain c2 where
      c2: "Set se tB B vB c1 = Inr c2" "cache_ok se c2" "capacity c2 = 2" "ttl c2 = ttl c"
      "entries c2 = ?eB # filter (\<lambda>x. key x \<noteq> B) (?eA # r)" by (auto simp: c1)
    have "B \<in> key ` set (entries c1)" by (rule ok_lookup_in[OF c1(2) Some])
    then have "B \<in> key ` set r" using ne by (auto simp: c1(5))
    then obtain x where x: "r = [x]" "key x = B" using lr by (cases r) auto
    have "filter (\<lambda>x. key x \<noteq> B) (?eA # r) = [?eA]" using ne x by simp
    with c1(1) c2 show ?thesis by auto
  qed
qed

subsection \<open>The invariant of the specification\<close>

lemma lookup_distinct:
  "distinct (map fst m) \<Longrightarrow> (k, e) \<in> set m \<Longrightarrow> se k \<Longrightarrow> map_lookup se m k = Some e"
  by (induction m) (auto simp: key_eq_def rev_image_eqI)

lemma ok_bijection_invariant:
  assumes w: "cache_ok se c" and i: "index_ok se c"
  shows "bijection_invariant se c"
proof -
  let ?f = "\<lambda>e. the (Value c e)"
  have dk: "distinct (map fst (items c))" and sk: "\<forall>p \<in> set (items c). se (fst p)"
    and sv: "\<forall>val \<in> set (entries c). se (key val)" using i by (simp_all add: index_ok_def)
  have keys: "fst ` set (items c) = key ` set (entries c)"
  proof
    show "fst ` set (items c) \<subseteq> key ` set (entries c)"
    proof
      fix k assume k: "k \<in> fst ` set (items c)"
      then have "se k" using sk by auto
      with k have "map_lookup se (items c) k \<noteq> None" by (simp add: lookup_None_keys)
      then obtain e where "map_lookup se (items c) k = Some e" by auto
      then show "k \<in> key ` set (entries c)" by (rule ok_lookup_in[OF w])
    qed
  next
    show "key ` set (entries c) \<subseteq> fst ` set (items c)"
    proof
      fix k assume "k \<in> key ` set (entries c)"
      then obtain val where val: "val \<in> set (entries c)" "k = key val" by auto
      then have "se (key val)" using sv by simp
      from entries_lookup[OF w val(1) this] obtain e where
        "map_lookup se (items c) (key val) = Some e" by blast
      from lookup_Some[OF this] val(2) show "k \<in> fst ` set (items c)" by force
    qed
  qed
  have inj: "inj_on (\<lambda>e. key (?f e)) (set (evictList c))"
  proof (rule inj_onI)
    fix x y assume x: "x \<in> set (evictList c)" and y: "y \<in> set (evictList c)"
      and eq: "key (?f x) = key (?f y)"
    from ok_Value[OF w x] obtain vx where vx: "Value c x = Some vx"
      "se (key vx) \<longrightarrow> map_lookup se (items c) (key vx) = Some x" by blast
    from ok_Value[OF w y] obtain vy where vy: "Value c y = Some vy"
      "se (key vy) \<longrightarrow> map_lookup se (items c) (key vy) = Some y" by blast
    have "vx \<in> set (entries c)" using x vx(1) by (auto simp: set_entries)
    then have "se (key vx)" using sv by simp
    with vx vy eq show "x = y" by simp
  qed
  have d: "distinct (evictList c)" using w by (simp add: cache_ok_def)
  have de: "distinct (map key (entries c))"
    using d inj by (simp add: ok_entries[OF w] distinct_map comp_def)
  have "length (items c) = card (fst ` set (items c))"
    using distinct_card[OF dk] by simp
  also have "\<dots> = card (key ` set (entries c))" by (simp add: keys)
  also have "\<dots> = length (entries c)" using distinct_card[OF de] by simp
  finally have 1: "map_len (items c) = Len (evictList c)"
    by (simp add: map_len_def ok_length_entries[OF w])
  have 2: "Len (evictList c) \<le> capacity c" using w by (simp add: cache_ok_def)
  have 4: "\<forall>p \<in> set (items c).
        snd p \<in> set (evictList c) \<and>
        (\<exists>val. Value c (snd p) = Some val \<and> key_eq se (key val) (fst p))"
  proof
    fix p assume p: "p \<in> set (items c)"
    then have s: "se (fst p)" using sk by simp
    have "(fst p, snd p) \<in> set (items c)" using p by simp
    with dk s have "map_lookup se (items c) (fst p) = Some (snd p)"
      by (intro lookup_distinct)
    from ok_items[OF w this] s
    show "snd p \<in> set (evictList c) \<and>
        (\<exists>val. Value c (snd p) = Some val \<and> key_eq se (key val) (fst p))"
      by (auto simp: key_eq_def)
  qed
  have 5: "\<forall>e \<in> set (evictList c).
        \<exists>val. Value c e = Some val \<and> map_lookup se (items c) (key val) = Some e"
  proof
    fix e assume e: "e \<in> set (evictList c)"
    from ok_Value[OF w e] obtain val where val: "Value c e = Some val"
      "se (key val) \<longrightarrow> map_lookup se (items c) (key val) = Some e" by blast
    have "val \<in> set (entries c)" using e val(1) by (auto simp: set_entries)
    then have "se (key val)" using sv by simp
    with val show "\<exists>val. Value c e = Some val \<and> map_lookup se (items c) (key val) = Some e"
      by blast
  qed
  show ?thesis unfolding bijection_invariant_def by (intro conjI 1 2 keys 4 5)
qed

subsection \<open>The options\<close>

lemma applyOpts_append: "applyOpts (xs @ ys) opt = applyOpts ys (applyOpts xs opt)"
  by (induction xs opt rule: applyOpts.induct) simp_all

lemma applyOpts_capacity_kept:
  "\<forall>x \<in> set opts. x = None \<or> (\<exists>n\<le>0. x = WithCapacity n) \<or> (\<exists>d. x = WithTTL d) \<Longrightarrow>
   o_capacity (applyOpts opts opt) = o_capacity opt"
proof (induction opts opt rule: applyOpts.induct)
  case (3 f opts opt)
  have "o_capacity (f opt) = o_capacity opt"
    using "3.prems" by (auto simp: WithCapacity_def WithTTL_def)
  moreover have "o_capacity (applyOpts opts (f opt)) = o_capacity (f opt)"
    using "3.prems" by (intro "3.IH") simp
  ultimately show ?case by simp
qed simp_all

lemma applyOpts_ttl_kept:
  "\<forall>x \<in> set opts. x = None \<or> (\<exists>d<0. x = WithTTL d) \<or> (\<exists>n. x = WithCapacity n) \<Longrightarrow>
   o_ttl (applyOpts opts opt) = o_ttl opt"
proof (induction opts opt rule: applyOpts.induct)
  case (3 f opts opt)
  have "o_ttl (f opt) = o_ttl opt"
    using "3.prems" by (auto simp: WithCapacity_def WithTTL_def)
  moreover have "o_ttl (applyOpts opts (f opt)) = o_ttl (f opt)"
    using "3.prems" by (intro "3.IH") simp
  ultimately show ?case by simp
qed simp_all

subsection \<open>Evaluation of the operations on concrete states\<close>

lemmas eval_defs = New_def Set_def Get_def evict_def Len_def Back_def Remove_def MoveToFront_def
  WithCapacity_def WithTTL_def Let_def defaultSize_def expired_def key_eq_def map_delete_def
  map_len_def

lemma run_example:
  "run is_Num [CallSet 0 (Num 1) (10::int), CallSet 1 (Num 2) 20, CallGet 2 NaN,
          CallGet 2 (Num 1), CallSet 3 (Num 3) 30] (fst (New [WithCapacity 2])) =
   Inr \<lparr>items = [(Num 1, 0), (Num 3, 2)], evictList = [2, 0], capacity = 2, ttl = 0,
        Value = [0 \<mapsto> \<lparr>key = Num 1, value' = 10, expiredAt = 0\<rparr>,
                 1 \<mapsto> \<lparr>key = Num 2, value' = 20, expiredAt = 1\<rparr>,
                 2 \<mapsto> \<lparr>key = Num 3, value' = 30, expiredAt = 3\<rparr>], nxt = 3\<rparr>"
  by (simp add: eval_defs numeral_2_eq_2 numeral_3_eq_3)

lemma LRU_example:
  "run is_Num [CallSet 0 NaN (10::int), CallSet 1 (Num 2) 20, CallSet 2 (Num 3) 30]
     (fst (New [WithCapacity 2, WithTTL 5])) =
   Inr \<lparr>items = [(NaN, 0), (Num 2, 1), (Num 3, 2)], evictList = [2, 1], capacity = 2, ttl = 5,
        Value = [0 \<mapsto> \<lparr>key = NaN, value' = 10, expiredAt = 5\<rparr>,
                 1 \<mapsto> \<lparr>key = Num 2, value' = 20, expiredAt = 6\<rparr>,
                 2 \<mapsto> \<lparr>key = Num 3, value' = 30, expiredAt = 7\<rparr>], nxt = 3\<rparr>"
  by (simp add: eval_defs numeral_2_eq_2 numeral_3_eq_3)

lemma refresh_example:
  "run is_Num [CallSet 0 NaN (21::int), CallSet 0 (Num 9) 90]
     (fst (New [WithCapacity 2, WithTTL 5])) =
   Inr \<lparr>items = [(NaN, 0), (Num 9, 1)], evictList = [1, 0], capacity = 2, ttl = 5,
        Value = [0 \<mapsto> \<lparr>key = NaN, value' = 21, expiredAt = 5\<rparr>,
                 1 \<mapsto> \<lparr>key = Num 9, value' = 90, expiredAt = 5\<rparr>], nxt = 2\<rparr>"
  by (simp add: eval_defs numeral_2_eq_2)

lemma ttl_example:
  "run (\<lambda>_. True) [CallSet 0 (2::int) (20::int)] (fst (New [WithTTL 5])) =
   Inr \<lparr>items = [(2, 0)], evictList = [0], capacity = 128, ttl = 5,
        Value = [0 \<mapsto> \<lparr>key = 2, value' = 20, expiredAt = 5\<rparr>], nxt = 1\<rparr>"
  by (simp add: eval_defs)

lemma overwrite_example:
  "run is_Num [CallSet 0 NaN (10::int), CallSet 0 (Num 2) 20]
     (fst (New [WithCapacity 2, WithTTL 5])) =
   Inr \<lparr>items = [(NaN, 0), (Num 2, 1)], evictList = [1, 0], capacity = 2, ttl = 5,
        Value = [0 \<mapsto> \<lparr>key = NaN, value' = 10, expiredAt = 5\<rparr>,
                 1 \<mapsto> \<lparr>key = Num 2, value' = 20, expiredAt = 5\<rparr>], nxt = 2\<rparr>"
  by (simp add: eval_defs numeral_2_eq_2)

section \<open>The claims\<close>

text \<open>
  C1, as stated: after every sequence of completed \<^verbatim>\<open>Set\<close> and \<^verbatim>\<open>Get\<close> calls the index and
  the list have the same size, and the keys of the index are those of the list's nodes.
  It fails when a key that is not equal to itself is set: on a cache of capacity 1 with
  \<^verbatim>\<open>float64\<close> keys, after \<^verbatim>\<open>Set(NaN, 1)\<close> and \<^verbatim>\<open>Set(NaN, 2)\<close> the index has two entries
  and the list has one node. The second \<^verbatim>\<open>Set\<close> does not find the key; it removes the
  back node, whose key \<^verbatim>\<open>delete\<close> does not find either, and adds a second index entry.
\<close>

theorem invariant_after_calls_counterexample:
  "run is_Num [CallSet 0 NaN (1::int), CallSet 0 NaN 2] (fst (New [WithCapacity 1])) =
   Inr \<lparr>items = [(NaN, 0), (NaN, 1)], evictList = [1], capacity = 1, ttl = 0,
        Value = [0 \<mapsto> \<lparr>key = NaN, value' = 1, expiredAt = 0\<rparr>,
                 1 \<mapsto> \<lparr>key = NaN, value' = 2, expiredAt = 0\<rparr>], nxt = 2\<rparr> \<and>
   map_len [(NaN, 0::nat), (NaN, 1)] = 2 \<and> Len [1] = 1 \<and>
   \<not> bijection_invariant is_Num
     \<lparr>items = [(NaN, 0), (NaN, 1)], evictList = [1], capacity = 1, ttl = 0,
      Value = [0 \<mapsto> \<lparr>key = NaN, value' = 1::int, expiredAt = 0\<rparr>,
               1 \<mapsto> \<lparr>key = NaN, value' = 2, expiredAt = 0\<rparr>], nxt = 2\<rparr>"
  by (simp add: eval_defs bijection_invariant_def)

text \<open>
  C1, amended: every sequence of \<^verbatim>\<open>Set\<close> and \<^verbatim>\<open>Get\<close> calls on a cache that \<^verbatim>\<open>New\<close> built,
  in which every key passed to \<^verbatim>\<open>Set\<close> is equal to itself (the keys passed to \<^verbatim>\<open>Get\<close> are
  any), completes, no call panics, and the state it leaves satisfies the invariant: the
  index and the list have the same size, which is at most the capacity; the keys of the
  index are exactly the keys stored by the nodes of the list; and every node stores the
  key under which the index has it.
\<close>

theorem invariant_after_calls:
  assumes "\<forall>x \<in> set calls. is_CallSet x \<longrightarrow> se (call_key x)"
  shows "\<exists>c'. run se calls (fst (New opts)) = Inr c' \<and> bijection_invariant se c'"
proof -
  from run_ok[OF ok_New, of se calls opts] assms index_ok_New[of se opts]
  obtain c' where "run se calls (fst (New opts)) = Inr c'" "cache_ok se c'" "index_ok se c'"
    by blast
  then show ?thesis using ok_bijection_invariant by blast
qed

text \<open>
  The calls \<^verbatim>\<open>Set(1, 10)\<close>, \<^verbatim>\<open>Set(2, 20)\<close>, \<^verbatim>\<open>Get(NaN)\<close>, \<^verbatim>\<open>Get(1)\<close>, \<^verbatim>\<open>Set(3, 30)\<close> on a
  cache of capacity 2 with \<^verbatim>\<open>float64\<close> keys end in a state with two index entries and
  two nodes, which satisfies the invariant.
\<close>

theorem invariant_after_calls_witness:
  "run is_Num [CallSet 0 (Num 1) (10::int), CallSet 1 (Num 2) 20, CallGet 2 NaN,
          CallGet 2 (Num 1), CallSet 3 (Num 3) 30] (fst (New [WithCapacity 2])) =
   Inr \<lparr>items = [(Num 1, 0), (Num 3, 2)], evictList = [2, 0], capacity = 2, ttl = 0,
        Value = [0 \<mapsto> \<lparr>key = Num 1, value' = 10, expiredAt = 0\<rparr>,
                 1 \<mapsto> \<lparr>key = Num 2, value' = 20, expiredAt = 1\<rparr>,
                 2 \<mapsto> \<lparr>key = Num 3, value' = 30, expiredAt = 3\<rparr>], nxt = 3\<rparr> \<and>
   bijection_invariant is_Num
     \<lparr>items = [(Num 1, 0), (Num 3, 2)], evictList = [2, 0], capacity = 2, ttl = 0,
      Value = [0 \<mapsto> \<lparr>key = Num 1, value' = 10::int, expiredAt = 0\<rparr>,
               1 \<mapsto> \<lparr>key = Num 2, value' = 20, expiredAt = 1\<rparr>,
               2 \<mapsto> \<lparr>key = Num 3, value' = 30, expiredAt = 3\<rparr>], nxt = 3\<rparr>"
proof -
  let ?calls = "[CallSet 0 (Num 1) (10::int), CallSet 1 (Num 2) 20, CallGet 2 NaN,
          CallGet 2 (Num 1), CallSet 3 (Num 3) 30]"
  have h: "\<forall>x \<in> set ?calls. is_CallSet x \<longrightarrow> is_Num (call_key x)" by simp
  from invariant_after_calls[OF h, of "[WithCapacity 2]"]
  obtain c' where "run is_Num ?calls (fst (New [WithCapacity 2])) = Inr c'"
    "bijection_invariant is_Num c'" by blast
  then show ?thesis unfolding run_example by simp
qed

text \<open>
  C2, as stated: after \<open>N + 1\<close> \<^verbatim>\<open>Set\<close> calls with pairwise distinct keys on a fresh
  cache of capacity \<open>N \<ge> 1\<close>, \<^verbatim>\<open>Get\<close> of the first key reports a miss and \<^verbatim>\<open>Get\<close> of
  each later key reports a hit. The second part fails when the cache has a TTL and the
  entry has expired when it is read: with capacity 1 and a TTL of 1, after \<^verbatim>\<open>Set(1, 10)\<close>
  and \<^verbatim>\<open>Set(2, 20)\<close> at time 0, \<^verbatim>\<open>Get(2)\<close> at time 5 reports a miss. It also fails when a
  later key is not equal to itself: with capacity 1 and no TTL, after \<^verbatim>\<open>Set(1, 10)\<close> and
  \<^verbatim>\<open>Set(NaN, 20)\<close>, \<^verbatim>\<open>Get(NaN)\<close> reports a miss, the index finding no key equal to NaN.
\<close>

theorem LRU_order_counterexample:
  "run (\<lambda>_. True) [CallSet 0 (1::int) (10::int), CallSet 0 2 20]
     (fst (New [WithCapacity 1, WithTTL 1])) =
   Inr \<lparr>items = [(2, 1)], evictList = [1], capacity = 1, ttl = 1,
        Value = [0 \<mapsto> \<lparr>key = 1, value' = 10, expiredAt = 1\<rparr>,
                 1 \<mapsto> \<lparr>key = 2, value' = 20, expiredAt = 1\<rparr>], nxt = 2\<rparr> \<and>
   Get (\<lambda>_. True) 5 (2::int)
     \<lparr>items = [(2, 1)], evictList = [1], capacity = 1, ttl = 1,
      Value = [0 \<mapsto> \<lparr>key = 1, value' = 10::int, expiredAt = 1\<rparr>,
               1 \<mapsto> \<lparr>key = 2, value' = 20, expiredAt = 1\<rparr>], nxt = 2\<rparr> =
   Inr ((0, False),
     \<lparr>items = [(2, 1)], evictList = [1], capacity = 1, ttl = 1,
      Value = [0 \<mapsto> \<lparr>key = 1, value' = 10, expiredAt = 1\<rparr>,
               1 \<mapsto> \<lparr>key = 2, value' = 20, expiredAt = 1\<rparr>], nxt = 2\<rparr>) \<and>
   run is_Num [CallSet 0 (Num 1) (10::int), CallSet 0 NaN 20] (fst (New [WithCapacity 1])) =
   Inr \<lparr>items = [(NaN, 1)], evictList = [1], capacity = 1, ttl = 0,
        Value = [0 \<mapsto> \<lparr>key = Num 1, value' = 10, expiredAt = 0\<rparr>,
                 1 \<mapsto> \<lparr>key = NaN, value' = 20, expiredAt = 0\<rparr>], nxt = 2\<rparr> \<and>
   Get is_Num 0 NaN
     \<lparr>items = [(NaN, 1)], evictList = [1], capacity = 1, ttl = 0,
      Value = [0 \<mapsto> \<lparr>key = Num 1, value' = 10::int, expiredAt = 0\<rparr>,
               1 \<mapsto> \<lparr>key = NaN, value' = 20, expiredAt = 0\<rparr>], nxt = 2\<rparr> =
   Inr ((0, False),
     \<lparr>items = [(NaN, 1)], evictList = [1], capacity = 1, ttl = 0,
      Value = [0 \<mapsto> \<lparr>key = Num 1, value' = 10, expiredAt = 0\<rparr>,
               1 \<mapsto> \<lparr>key = NaN, value' = 20, expiredAt = 0\<rparr>], nxt = 2\<rparr>)"
  by (simp add: eval_defs numeral_2_eq_2)

text \<open>
  C2, amended: after \<open>N + 1\<close> \<^verbatim>\<open>Set\<close> calls with pairwise distinct keys on a fresh
  cache of capacity \<open>N \<ge> 1\<close>, with no other call in between, where each of the \<open>N\<close>
  later keys is equal to itself (the first key is any), \<^verbatim>\<open>Get\<close> of the first key
  reports a miss at any time; \<^verbatim>\<open>Get\<close> of each of the \<open>N\<close> later keys reports a hit
  with the value set, unless the TTL is not zero and the expiry of the entry (the time
  of its \<^verbatim>\<open>Set\<close> plus the TTL) is strictly before the time of the \<^verbatim>\<open>Get\<close>, where it
  reports a miss.
\<close>

theorem LRU_order:
  assumes N: "1 \<le> N" and cap: "capacity (fst (New opts :: ('k, 'v::zero) Cache \<times> error option)) = N"
    and sets: "\<forall>x \<in> set sets. is_CallSet x" and d: "distinct (map call_key sets)"
    and len: "length sets = nat N + 1"
    and self: "\<forall>i \<in> {1..nat N}. se (call_key (sets ! i))"
  shows "\<exists>c'. run se sets (fst (New opts :: ('k, 'v) Cache \<times> error option)) = Inr c' \<and>
           Get se t (call_key (sets ! 0)) c' = Inr ((0, False), c') \<and>
           (\<forall>i \<in> {1..nat N}.
              if ttl c' \<noteq> 0 \<and> call_time (sets ! i) + ttl c' < t
              then Get se t (call_key (sets ! i)) c' = Inr ((0, False), c')
              else \<exists>c''. Get se t (call_key (sets ! i)) c' =
                     Inr ((call_value (sets ! i), True), c''))"
proof -
  let ?c0 = "fst (New opts :: ('k, 'v) Cache \<times> error option)"
  have "key ` set (entries ?c0) \<inter> call_key ` set sets = {}" by (simp add: entries_New)
  from run_sets_entries[OF ok_New sets d this] obtain c' where
    c': "run se sets ?c0 = Inr c'" "cache_ok se c'" "ttl c' = ttl ?c0"
    "entries c' = take (nat N) (rev (map (call_entry (ttl ?c0)) sets))"
    by (auto simp: entries_New cap)
  obtain x rest where sr: "sets = x # rest" using len by (cases sets) auto
  have lr: "length rest = nat N" using len sr by simp
  have e: "entries c' = rev (map (call_entry (ttl c')) rest)"
    using c'(3,4) lr by (simp add: sr)
  have keys: "key ` set (entries c') = call_key ` set rest"
    by (force simp: e call_entry_def image_iff)
  have "call_key x \<notin> call_key ` set rest" using d sr by auto
  then have "call_key (sets ! 0) \<notin> key ` set (entries c')" by (simp add: keys sr)
  then have "\<not> se (call_key (sets ! 0)) \<or> call_key (sets ! 0) \<notin> key ` set (entries c')" by simp
  from Get_missing[OF c'(2) this]
  have g1: "Get se t (call_key (sets ! 0)) c' = Inr ((0, False), c')" .
  have g2: "\<forall>i \<in> {1..nat N}.
              if ttl c' \<noteq> 0 \<and> call_time (sets ! i) + ttl c' < t
              then Get se t (call_key (sets ! i)) c' = Inr ((0, False), c')
              else \<exists>c''. Get se t (call_key (sets ! i)) c' =
                     Inr ((call_value (sets ! i), True), c'')"
  proof
    fix i assume ii: "i \<in> {1..nat N}"
    then have i: "1 \<le> i" "i - 1 < length rest" using lr by auto
    then have "sets ! i = rest ! (i - 1)" by (simp add: sr nth_Cons')
    then have "sets ! i \<in> set rest" using i by simp
    then have m: "call_entry (ttl c') (sets ! i) \<in> set (entries c')" by (simp add: e)
    have s: "se (call_key (sets ! i))" using self ii by blast
    from Get_call_entry[OF c'(2) m s]
    show "if ttl c' \<noteq> 0 \<and> call_time (sets ! i) + ttl c' < t
              then Get se t (call_key (sets ! i)) c' = Inr ((0, False), c')
              else \<exists>c''. Get se t (call_key (sets ! i)) c' =
                     Inr ((call_value (sets ! i), True), c'')" .
  qed
  from c'(1) g1 g2 show ?thesis by blast
qed

text \<open>
  Capacity 2, TTL 5, the keys NaN, 2, 3 set at the times 0, 1, 2, read at time 6: the
  key NaN is not found, the keys 2 (expiry 6) and 3 (expiry 7) are found.
\<close>

theorem LRU_order_witness:
  "\<exists>c'. run is_Num [CallSet 0 NaN (10::int), CallSet 1 (Num 2) 20, CallSet 2 (Num 3) 30]
          (fst (New [WithCapacity 2, WithTTL 5])) = Inr c' \<and>
     Get is_Num 6 NaN c' = Inr ((0, False), c') \<and>
     (\<exists>c''. Get is_Num 6 (Num 2) c' = Inr ((20, True), c'')) \<and>
     (\<exists>c''. Get is_Num 6 (Num 3) c' = Inr ((30, True), c''))"
proof -
  let ?sets = "[CallSet 0 NaN (10::int), CallSet 1 (Num 2) 20, CallSet 2 (Num 3) 30]"
  let ?c0 = "fst (New [WithCapacity 2, WithTTL 5] :: (float_key, int) Cache \<times> error option)"
  have cap: "capacity ?c0 = 2" by (simp add: eval_defs)
  have n: "(1::int) \<le> 2" by simp
  have s: "\<forall>x \<in> set ?sets. is_CallSet x" by simp
  have d: "distinct (map call_key ?sets)" by simp
  have l: "length ?sets = nat 2 + 1" by simp
  have se: "\<forall>i \<in> {1..nat 2}. is_Num (call_key (?sets ! i))"
  proof
    fix i assume "i \<in> {1..nat 2}"
    then have "i = 1 \<or> i = 2" by auto
    then show "is_Num (call_key (?sets ! i))" by auto
  qed
  from LRU_order[OF n cap s d l se, of 6]
  obtain c' where c': "run is_Num ?sets ?c0 = Inr c'"
    "Get is_Num 6 (call_key (?sets ! 0)) c' = Inr ((0, False), c')"
    "\<forall>i \<in> {1..nat 2}.
              if ttl c' \<noteq> 0 \<and> call_time (?sets ! i) + ttl c' < 6
              then Get is_Num 6 (call_key (?sets ! i)) c' = Inr ((0, False), c')
              else \<exists>c''. Get is_Num 6 (call_key (?sets ! i)) c' =
                     Inr ((call_value (?sets ! i), True), c'')"
    by blast
  have t: "ttl c' = 5" using c'(1) unfolding LRU_example by auto
  have "(1::nat) \<in> {1..nat 2}" "(2::nat) \<in> {1..nat 2}" by simp_all
  from c'(3)[rule_format, OF this(1)] c'(3)[rule_format, OF this(2)] t
  have "\<exists>c''. Get is_Num 6 (Num 2) c' = Inr ((20, True), c'')"
    "\<exists>c''. Get is_Num 6 (Num 3) c' = Inr ((30, True), c'')"
    by simp_all
  with c'(1,2) show ?thesis by simp
qed

text \<open>
  C3, as stated: in a cache of capacity 2, after \<^verbatim>\<open>Set(A)\<close>, \<^verbatim>\<open>Set(B)\<close>, \<^verbatim>\<open>Get(A)\<close>,
  \<^verbatim>\<open>Set(C)\<close> with \<open>A\<close>, \<open>B\<close>, \<open>C\<close> distinct, \<open>B\<close> has been evicted and \<open>A\<close> and
  \<open>C\<close> are present. It fails when \<open>A\<close> or \<open>C\<close> is not equal to itself. With
  \<open>A\<close> = NaN, \<open>B\<close> = 2, \<open>C\<close> = 3 on a fresh cache: \<^verbatim>\<open>Get(NaN)\<close> finds nothing and
  moves nothing, so \<^verbatim>\<open>Set(3)\<close> removes the node of \<open>A\<close> at the back, and \<^verbatim>\<open>Get(2)\<close>
  still finds \<open>B\<close>. With \<open>A\<close> = 1, \<open>B\<close> = 2, \<open>C\<close> = NaN: \<^verbatim>\<open>Set(NaN)\<close> evicts
  \<open>B\<close>, but the index finds no key equal to NaN and \<^verbatim>\<open>Get(NaN)\<close> reports a miss.
\<close>

theorem recency_refresh_counterexample:
  "run is_Num [CallSet 0 NaN (10::int), CallSet 1 (Num 2) 20, CallGet 2 NaN, CallSet 3 (Num 3) 30]
     (fst (New [WithCapacity 2])) =
   Inr \<lparr>items = [(NaN, 0), (Num 2, 1), (Num 3, 2)], evictList = [2, 1], capacity = 2, ttl = 0,
        Value = [0 \<mapsto> \<lparr>key = NaN, value' = 10, expiredAt = 0\<rparr>,
                 1 \<mapsto> \<lparr>key = Num 2, value' = 20, expiredAt = 1\<rparr>,
                 2 \<mapsto> \<lparr>key = Num 3, value' = 30, expiredAt = 3\<rparr>], nxt = 3\<rparr> \<and>
   Get is_Num 4 (Num 2)
     \<lparr>items = [(NaN, 0), (Num 2, 1), (Num 3, 2)], evictList = [2, 1], capacity = 2, ttl = 0,
      Value = [0 \<mapsto> \<lparr>key = NaN, value' = 10::int, expiredAt = 0\<rparr>,
               1 \<mapsto> \<lparr>key = Num 2, value' = 20, expiredAt = 1\<rparr>,
               2 \<mapsto> \<lparr>key = Num 3, value' = 30, expiredAt = 3\<rparr>], nxt = 3\<rparr> =
   Inr ((20, True),
     \<lparr>items = [(NaN, 0), (Num 2, 1), (Num 3, 2)], evictList = [1, 2], capacity = 2, ttl = 0,
      Value = [0 \<mapsto> \<lparr>key = NaN, value' = 10, expiredAt = 0\<rparr>,
               1 \<mapsto> \<lparr>key = Num 2, value' = 20, expiredAt = 1\<rparr>,
               2 \<mapsto> \<lparr>key = Num 3, value' = 30, expiredAt = 3\<rparr>], nxt = 3\<rparr>) \<and>
   run is_Num [CallSet 0 (Num 1) (10::int), CallSet 1 (Num 2) 20, CallGet 2 (Num 1), CallSet 3 NaN 30]
     (fst (New [WithCapacity 2])) =
   Inr \<lparr>items = [(Num 1, 0), (NaN, 2)], evictList = [2, 0], capacity = 2, ttl = 0,
        Value = [0 \<mapsto> \<lparr>key = Num 1, value' = 10, expiredAt = 0\<rparr>,
                 1 \<mapsto> \<lparr>key = Num 2, value' = 20, expiredAt = 1\<rparr>,
                 2 \<mapsto> \<lparr>key = NaN, value' = 30, expiredAt = 3\<rparr>], nxt = 3\<rparr> \<and>
   map_lookup is_Num [(Num 1, 0), (NaN, 2)] NaN = None \<and>
   Get is_Num 4 NaN
     \<lparr>items = [(Num 1, 0), (NaN, 2)], evictList = [2, 0], capacity = 2, ttl = 0,
      Value = [0 \<mapsto> \<lparr>key = Num 1, value' = 10::int, expiredAt = 0\<rparr>,
               1 \<mapsto> \<lparr>key = Num 2, value' = 20, expiredAt = 1\<rparr>,
               2 \<mapsto> \<lparr>key = NaN, value' = 30, expiredAt = 3\<rparr>], nxt = 3\<rparr> =
   Inr ((0, False),
     \<lparr>items = [(Num 1, 0), (NaN, 2)], evictList = [2, 0], capacity = 2, ttl = 0,
      Value = [0 \<mapsto> \<lparr>key = Num 1, value' = 10, expiredAt = 0\<rparr>,
               1 \<mapsto> \<lparr>key = Num 2, value' = 20, expiredAt = 1\<rparr>,
               2 \<mapsto> \<lparr>key = NaN, value' = 30, expiredAt = 3\<rparr>], nxt = 3\<rparr>)"
  by (simp add: eval_defs numeral_2_eq_2 numeral_3_eq_3)

text \<open>
  C3, amended: in a cache of capacity 2, in any state that calls can reach, after
  \<^verbatim>\<open>Set(A)\<close>, \<^verbatim>\<open>Set(B)\<close>, a \<^verbatim>\<open>Get(A)\<close> that finds the entry not expired, and \<^verbatim>\<open>Set(C)\<close>,
  with \<open>A\<close>, \<open>B\<close>, \<open>C\<close> distinct and \<open>A\<close> and \<open>C\<close> equal to themselves (\<open>B\<close>
  is any): all four calls complete and the \<^verbatim>\<open>Get(A)\<close> returns the value of \<open>A\<close>; the
  index does not find \<open>B\<close> and \<^verbatim>\<open>Get(B)\<close> reports a miss at any time; the keys \<open>A\<close>
  and \<open>C\<close> are present, that is, found by the index, and a \<^verbatim>\<open>Get\<close> of either returns
  its value unless the TTL is not zero and the entry has expired.
\<close>

theorem recency_refresh:
  assumes r: "run se calls (fst (New opts)) = Inr c" and cap: "capacity c = 2"
    and ne: "A \<noteq> B" "A \<noteq> C" "B \<noteq> C"
    and self: "se A" "se C"
    and fresh: "ttl c = 0 \<or> \<not> tA + ttl c < tG"
  shows "\<exists>c1 c2 c3 c4.
           Set se tA A vA c = Inr c1 \<and>
           Set se tB B vB c1 = Inr c2 \<and>
           Get se tG A c2 = Inr ((vA, True), c3) \<and>
           Set se tC C vC c3 = Inr c4 \<and>
           map_lookup se (items c4) B = None \<and> Get se t B c4 = Inr ((0, False), c4) \<and>
           map_lookup se (items c4) A \<noteq> None \<and> map_lookup se (items c4) C \<noteq> None \<and>
           (if ttl c \<noteq> 0 \<and> tA + ttl c < t then Get se t A c4 = Inr ((0, False), c4)
            else \<exists>c5. Get se t A c4 = Inr ((vA, True), c5)) \<and>
           (if ttl c \<noteq> 0 \<and> tC + ttl c < t then Get se t C c4 = Inr ((0, False), c4)
            else \<exists>c5. Get se t C c4 = Inr ((vC, True), c5))"
proof -
  let ?d = "ttl c"
  let ?eA = "\<lparr>key = A, value' = vA, expiredAt = tA + ?d\<rparr>"
  let ?eB = "\<lparr>key = B, value' = vB, expiredAt = tB + ?d\<rparr>"
  let ?eC = "\<lparr>key = C, value' = vC, expiredAt = tC + ?d\<rparr>"
  have w: "cache_ok se c" by (rule reachable_ok[OF r])
  from Set_Set_entries[OF w cap ne(1), of tA vA tB vB] obtain c1 c2 where
    c1: "Set se tA A vA c = Inr c1" and
    c2: "Set se tB B vB c1 = Inr c2" "cache_ok se c2" "capacity c2 = 2" "ttl c2 = ?d"
      "entries c2 = [?eB, ?eA]"
    by blast
  have mA: "?eA \<in> set (entries c2)" by (simp add: c2(5))
  have sA: "se (key ?eA)" using self by simp
  have "ttl c2 = 0 \<or> \<not> expired ?eA tG" using fresh by (simp add: c2(4) expired_def)
  from Get_found[OF c2(2) mA sA this] obtain c3 where
    c3: "Get se tG A c2 = Inr ((vA, True), c3)" "cache_ok se c3" "capacity c3 = 2" "ttl c3 = ?d"
    "entries c3 = [?eA, ?eB]"
    using ne by (auto simp: c2)
  have "C \<notin> key ` set (entries c3)" using ne by (simp add: c3(5))
  then have "map_lookup se (items c3) C = None" by (rule ok_lookup_notin[OF c3(2)])
  from Set_absent_take[OF c3(2) this, of tC vC] obtain c4 where
    c4: "Set se tC C vC c3 = Inr c4" "cache_ok se c4" "ttl c4 = ?d" "entries c4 = [?eC, ?eA]"
    by (auto simp: c3)
  have "B \<notin> key ` set (entries c4)" using ne by (simp add: c4(4))
  then have iB: "map_lookup se (items c4) B = None" by (rule ok_lookup_notin[OF c4(2)])
  have gB: "Get se t B c4 = Inr ((0, False), c4)" using iB by (simp add: Get_def)
  have iA: "map_lookup se (items c4) A \<noteq> None"
    using self by (simp add: ok_lookup_None[OF c4(2)] c4(4))
  have iC: "map_lookup se (items c4) C \<noteq> None"
    using self by (simp add: ok_lookup_None[OF c4(2)] c4(4))
  have "?eA \<in> set (entries c4)" by (simp add: c4(4))
  from Get_entry[OF c4(2) this self(1), of t]
  have gA: "if ttl c \<noteq> 0 \<and> tA + ttl c < t then Get se t A c4 = Inr ((0, False), c4)
            else \<exists>c5. Get se t A c4 = Inr ((vA, True), c5)" by (simp add: c4(3))
  have "?eC \<in> set (entries c4)" by (simp add: c4(4))
  from Get_entry[OF c4(2) this self(2), of t]
  have gC: "if ttl c \<noteq> 0 \<and> tC + ttl c < t then Get se t C c4 = Inr ((0, False), c4)
            else \<exists>c5. Get se t C c4 = Inr ((vC, True), c5)" by (simp add: c4(3))
  from c1 c2(1) c3(1) c4(1) iB gB iA iC gA gC show ?thesis by blast
qed

text \<open>
  A cache of capacity 2 and TTL 5 that holds the keys NaN and 9: after \<^verbatim>\<open>Set(1, 10)\<close>,
  \<^verbatim>\<open>Set(NaN, 20)\<close>, \<^verbatim>\<open>Get(1)\<close> and \<^verbatim>\<open>Set(3, 30)\<close> at the times 1 to 4, the keys 1 and 3
  are found at time 5 and the key NaN is not.
\<close>

theorem recency_refresh_witness:
  "\<exists>c1 c2 c3 c4.
     Set is_Num 1 (Num 1) (10::int)
       \<lparr>items = [(NaN, 0), (Num 9, 1)], evictList = [1, 0], capacity = 2, ttl = 5,
        Value = [0 \<mapsto> \<lparr>key = NaN, value' = 21, expiredAt = 5\<rparr>,
                 1 \<mapsto> \<lparr>key = Num 9, value' = 90, expiredAt = 5\<rparr>], nxt = 2\<rparr> = Inr c1 \<and>
     Set is_Num 2 NaN 20 c1 = Inr c2 \<and>
     Get is_Num 3 (Num 1) c2 = Inr ((10, True), c3) \<and>
     Set is_Num 4 (Num 3) 30 c3 = Inr c4 \<and>
     map_lookup is_Num (items c4) NaN = None \<and> Get is_Num 5 NaN c4 = Inr ((0, False), c4) \<and>
     map_lookup is_Num (items c4) (Num 1) \<noteq> None \<and>
     map_lookup is_Num (items c4) (Num 3) \<noteq> None \<and>
     (\<exists>c5. Get is_Num 5 (Num 1) c4 = Inr ((10, True), c5)) \<and>
     (\<exists>c5. Get is_Num 5 (Num 3) c4 = Inr ((30, True), c5))"
proof -
  let ?c = "\<lparr>items = [(NaN, 0::nat), (Num 9, 1)], evictList = [1, 0], capacity = 2, ttl = 5,
        Value = [0 \<mapsto> \<lparr>key = NaN, value' = 21::int, expiredAt = 5\<rparr>,
                 1 \<mapsto> \<lparr>key = Num 9, value' = 90, expiredAt = 5\<rparr>], nxt = 2\<rparr>"
  have cap: "capacity ?c = 2" by simp
  have ne: "Num 1 \<noteq> NaN" "Num 1 \<noteq> Num 3" "NaN \<noteq> Num 3" by simp_all
  have self: "is_Num (Num 1)" "is_Num (Num 3)" by simp_all
  have fresh: "ttl ?c = 0 \<or> \<not> 1 + ttl ?c < 3" by simp
  note T = recency_refresh[OF refresh_example cap ne self fresh, where tB = 2 and tC = 4 and t = 5
      and vA = 10 and vB = 20 and vC = 30]
  have A: "\<not> (ttl ?c \<noteq> 0 \<and> 1 + ttl ?c < 5)" by simp
  have C: "\<not> (ttl ?c \<noteq> 0 \<and> 4 + ttl ?c < 5)" by simp
  from T show ?thesis unfolding if_not_P[OF A] if_not_P[OF C] by blast
qed

text \<open>
  C4, as stated: with a TTL \<open>d \<noteq> 0\<close> and no capacity pressure, a \<^verbatim>\<open>Get(K)\<close> right
  after \<^verbatim>\<open>Set(K, V)\<close> returns \<open>(V, true)\<close>. It fails for a key that is not equal to
  itself: with a TTL of 5 on a fresh cache, after \<^verbatim>\<open>Set(NaN, 7)\<close> at time 10 the
  \<^verbatim>\<open>Get(NaN)\<close> at time 10 returns the zero value and \<^verbatim>\<open>false\<close>.
\<close>

theorem Set_then_Get_ttl_counterexample:
  "Set is_Num 10 NaN (7::int) (fst (New [WithTTL 5])) =
   Inr \<lparr>items = [(NaN, 0)], evictList = [0], capacity = 128, ttl = 5,
        Value = [0 \<mapsto> \<lparr>key = NaN, value' = 7, expiredAt = 15\<rparr>], nxt = 1\<rparr> \<and>
   Get is_Num 10 NaN
     \<lparr>items = [(NaN, 0)], evictList = [0], capacity = 128, ttl = 5,
      Value = [0 \<mapsto> \<lparr>key = NaN, value' = 7::int, expiredAt = 15\<rparr>], nxt = 1\<rparr> =
   Inr ((0, False),
     \<lparr>items = [(NaN, 0)], evictList = [0], capacity = 128, ttl = 5,
      Value = [0 \<mapsto> \<lparr>key = NaN, value' = 7, expiredAt = 15\<rparr>], nxt = 1\<rparr>)"
  by (simp add: eval_defs)

text \<open>
  C4, amended: in a cache whose TTL is not zero, in any state that calls can reach,
  \<^verbatim>\<open>Set(K, V)\<close> at time \<open>t0\<close> with a key \<open>K\<close> that is equal to itself completes. After
  it and after any further calls that do not set \<open>K\<close> again and put the cache under no
  capacity pressure (the list's length after the \<^verbatim>\<open>Set\<close> plus the number of the further
  \<^verbatim>\<open>Set\<close> calls is at most the capacity, so nothing is evicted), a \<^verbatim>\<open>Get(K)\<close> at time
  \<open>t\<close> returns \<open>(V, true)\<close> when the stored expiry \<open>t0 + ttl\<close> is not strictly before
  \<open>t\<close> (so also at \<open>t = t0\<close> and at \<open>t = t0 + ttl\<close>), and the zero value and
  \<^verbatim>\<open>false\<close> when it is. With no further calls this is the \<^verbatim>\<open>Get\<close> that follows the
  \<^verbatim>\<open>Set\<close> immediately, at any size of the list.
\<close>

theorem Set_then_Get_ttl:
  assumes r: "run se calls (fst (New opts)) = Inr c" and t: "ttl c \<noteq> 0" and self: "se k"
  shows "\<exists>c1. Set se t0 k v c = Inr c1 \<and>
           (\<forall>mid. (\<forall>x \<in> set mid. is_CallSet x \<longrightarrow> call_key x \<noteq> k) \<and>
                  Len (evictList c1) + int (length (filter is_CallSet mid)) \<le> capacity c \<longrightarrow>
              (\<exists>c2. run se mid c1 = Inr c2 \<and>
                 (if t0 + ttl c < t then Get se t k c2 = Inr ((0, False), c2)
                  else \<exists>c3. Get se t k c2 = Inr ((v, True), c3))))"
proof -
  let ?val = "\<lparr>key = k, value' = v, expiredAt = t0 + ttl c\<rparr>"
  from Set_entries_head[OF reachable_ok[OF r], of t0 k v] obtain c1 where
    c1: "Set se t0 k v c = Inr c1" "cache_ok se c1" "capacity c1 = capacity c" "ttl c1 = ttl c"
    "?val \<in> set (entries c1)" by blast
  have "\<exists>c2. run se mid c1 = Inr c2 \<and>
                 (if t0 + ttl c < t then Get se t k c2 = Inr ((0, False), c2)
                  else \<exists>c3. Get se t k c2 = Inr ((v, True), c3))"
    if mid: "\<forall>x \<in> set mid. is_CallSet x \<longrightarrow> call_key x \<noteq> k"
      and room: "Len (evictList c1) + int (length (filter is_CallSet mid)) \<le> capacity c" for mid
  proof -
    have a: "\<forall>x \<in> set mid. is_CallSet x \<longrightarrow> call_key x \<noteq> key ?val" using mid by simp
    have b: "int (length (entries c1)) + int (length (filter is_CallSet mid)) \<le> capacity c1"
      using room by (simp add: ok_length_entries[OF c1(2)] c1(3))
    from run_keeps_entry[OF c1(2) c1(5) a b] obtain c2 where
      c2: "run se mid c1 = Inr c2" "cache_ok se c2" "ttl c2 = ttl c1" "?val \<in> set (entries c2)"
      by blast
    from Get_entry[OF c2(2) c2(4) self, of t] t
    have "if t0 + ttl c < t then Get se t k c2 = Inr ((0, False), c2)
                  else \<exists>c3. Get se t k c2 = Inr ((v, True), c3)"
      by (simp add: c2(3) c1(4))
    with c2(1) show ?thesis by blast
  qed
  with c1(1) show ?thesis by blast
qed

text \<open>
  TTL 5 and \<^verbatim>\<open>Set(1, 7)\<close> at time 10: \<^verbatim>\<open>Get(1)\<close> is a hit at the times 10 and 15, and a
  miss at time 16; it is still a hit at time 15 after a \<^verbatim>\<open>Get(2)\<close> and a \<^verbatim>\<open>Set(3, 30)\<close>.
\<close>

theorem Set_then_Get_ttl_witness:
  "\<exists>c1. Set (\<lambda>_. True) 10 (1::int) (7::int)
       \<lparr>items = [(2, 0)], evictList = [0], capacity = 128, ttl = 5,
        Value = [0 \<mapsto> \<lparr>key = 2, value' = 20, expiredAt = 5\<rparr>], nxt = 1\<rparr> = Inr c1 \<and>
     (\<exists>c2. Get (\<lambda>_. True) 10 1 c1 = Inr ((7, True), c2)) \<and>
     (\<exists>c2. Get (\<lambda>_. True) 15 1 c1 = Inr ((7, True), c2)) \<and>
     Get (\<lambda>_. True) 16 1 c1 = Inr ((0, False), c1) \<and>
     (\<exists>c2. run (\<lambda>_. True) [CallGet 11 2, CallSet 12 3 30] c1 = Inr c2 \<and>
        (\<exists>c3. Get (\<lambda>_. True) 15 1 c2 = Inr ((7, True), c3)))"
proof -
  let ?se = "\<lambda>_::int. True"
  let ?c = "\<lparr>items = [(2::int, 0::nat)], evictList = [0], capacity = 128, ttl = 5,
        Value = [0 \<mapsto> \<lparr>key = 2, value' = 20::int, expiredAt = 5\<rparr>], nxt = 1\<rparr>"
  let ?c1 = "\<lparr>items = [(2::int, 0::nat), (1, 1)], evictList = [1, 0], capacity = 128, ttl = 5,
        Value = [0 \<mapsto> \<lparr>key = 2, value' = 20::int, expiredAt = 5\<rparr>,
                 1 \<mapsto> \<lparr>key = 1, value' = 7, expiredAt = 15\<rparr>], nxt = 2\<rparr>"
  have s: "Set ?se 10 1 7 ?c = Inr ?c1" by (simp add: eval_defs)
  have tt: "ttl ?c \<noteq> 0" by simp
  note T = Set_then_Get_ttl[OF ttl_example tt TrueI, where ?t0.0 = 10 and k = 1 and v = 7]
  have e: "\<forall>x \<in> set ([] :: (int, int) call list). is_CallSet x \<longrightarrow> call_key x \<noteq> 1" by simp
  have e': "Len (evictList ?c1) + int (length (filter is_CallSet ([] :: (int, int) call list))) \<le> capacity ?c"
    by (simp add: Len_def)
  have m: "\<forall>x \<in> set [CallGet 11 (2::int), CallSet 12 3 (30::int)]. is_CallSet x \<longrightarrow> call_key x \<noteq> 1"
    by simp
  have m': "Len (evictList ?c1) + int (length (filter is_CallSet [CallGet 11 (2::int), CallSet 12 3 (30::int)])) \<le> capacity ?c"
    by (simp add: Len_def)
  from T[where t = 10] s e e' have g10: "\<exists>c2. Get ?se 10 1 ?c1 = Inr ((7, True), c2)" by fastforce
  from T[where t = 15] s e e' have g15: "\<exists>c2. Get ?se 15 1 ?c1 = Inr ((7, True), c2)" by fastforce
  from T[where t = 16] s e e' have g16: "Get ?se 16 1 ?c1 = Inr ((0, False), ?c1)" by fastforce
  from T[where t = 15] s m m' have gm: "\<exists>c2. run ?se [CallGet 11 2, CallSet 12 3 30] ?c1 = Inr c2 \<and>
        (\<exists>c3. Get ?se 15 1 c2 = Inr ((7, True), c3))" by fastforce
  from s g10 g15 g16 gm show ?thesis by blast
qed

text \<open>
  C5. When the TTL is zero, a \<^verbatim>\<open>Get\<close> of a key that the index has returns the stored
  value and \<^verbatim>\<open>true\<close>, whatever the stored \<^verbatim>\<open>expiredAt\<close> and the current time are, and
  keeps the index as it is. A call after which the key is absent is a \<^verbatim>\<open>Set\<close> of a key
  that was absent, on a list that had reached the capacity, and the key was the one
  stored by the back element of the list.
\<close>

theorem Get_ttl_disabled:
  assumes "ttl c = 0" and "map_lookup se (items c) k = Some e" and "Value c e = Some val"
  shows "(\<exists>c'. Get se now k c = Inr ((value' val, True), c') \<and> items c' = items c) \<and>
         (\<forall>x c'. exec se x c = Inr c' \<and> map_lookup se (items c') k = None \<longrightarrow>
            (\<exists>t k' v last'. x = CallSet t k' v \<and> map_lookup se (items c) k' = None \<and>
               capacity c \<le> Len (evictList c) \<and> Back (evictList c) = Some last' \<and>
               map_option key (Value c last') = Some k))"
proof
  show "\<exists>c'. Get se now k c = Inr ((value' val, True), c') \<and> items c' = items c"
    using assms by (simp add: Get_def)
next
  show "\<forall>x c'. exec se x c = Inr c' \<and> map_lookup se (items c') k = None \<longrightarrow>
            (\<exists>t k' v last'. x = CallSet t k' v \<and> map_lookup se (items c) k' = None \<and>
               capacity c \<le> Len (evictList c) \<and> Back (evictList c) = Some last' \<and>
               map_option key (Value c last') = Some k)"
  proof (intro allI impI)
    fix x c' assume a: "exec se x c = Inr c' \<and> map_lookup se (items c') k = None"
    show "\<exists>t k' v last'. x = CallSet t k' v \<and> map_lookup se (items c) k' = None \<and>
               capacity c \<le> Len (evictList c) \<and> Back (evictList c) = Some last' \<and>
               map_option key (Value c last') = Some k"
    proof (cases x)
      case (CallGet t k')
      with a assms(2) have False
        by (auto simp: Get_def split: option.splits if_splits)
      then show ?thesis ..
    next
      case (CallSet t k' v)
      with a assms(2) show ?thesis
        by (auto simp: Set_def evict_def Let_def lookup_assign lookup_delete
            split: option.splits if_splits sum.splits)
    qed
  qed
qed

text \<open>
  Capacity 1 and no TTL: the key 1, stored with the expiry 0, is found at time 1000;
  \<^verbatim>\<open>Set(2, 20)\<close> then removes it, the list being full and the key 1 at its back.
\<close>

theorem Get_ttl_disabled_witness:
  "(\<exists>c'. Get (\<lambda>_. True) 1000 (1::int)
       \<lparr>items = [(1, 0)], evictList = [0], capacity = 1, ttl = 0,
        Value = [0 \<mapsto> \<lparr>key = 1, value' = 10::int, expiredAt = 0\<rparr>], nxt = 1\<rparr> =
       Inr ((10, True), c') \<and> items c' = [(1, 0)]) \<and>
   (\<exists>c'. exec (\<lambda>_. True) (CallSet 5 2 20)
       \<lparr>items = [(1::int, 0)], evictList = [0], capacity = 1, ttl = 0,
        Value = [0 \<mapsto> \<lparr>key = 1, value' = 10::int, expiredAt = 0\<rparr>], nxt = 1\<rparr> = Inr c' \<and>
      map_lookup (\<lambda>_. True) (items c') 1 = None) \<and>
   Back [0] = Some 0"
proof -
  let ?se = "\<lambda>_::int. True"
  let ?c = "\<lparr>items = [(1::int, 0::nat)], evictList = [0], capacity = 1, ttl = 0,
        Value = [0 \<mapsto> \<lparr>key = 1, value' = 10::int, expiredAt = 0\<rparr>], nxt = 1\<rparr>"
  have h: "ttl ?c = 0" "map_lookup ?se (items ?c) 1 = Some 0"
    "Value ?c 0 = Some \<lparr>key = 1, value' = 10, expiredAt = 0\<rparr>" by (simp_all add: key_eq_def)
  note t = Get_ttl_disabled[OF h, of 1000]
  from t have g: "\<exists>c'. Get ?se 1000 1 ?c = Inr ((10, True), c') \<and> items c' = [(1, 0)]" by simp
  have s: "\<exists>c'. exec ?se (CallSet 5 2 20) ?c = Inr c' \<and> map_lookup ?se (items c') 1 = None"
    by (simp add: eval_defs)
  from t s have "\<exists>t k' v last'. CallSet 5 2 20 = CallSet t k' (v::int) \<and>
               map_lookup ?se (items ?c) k' = None \<and>
               capacity ?c \<le> Len (evictList ?c) \<and> Back (evictList ?c) = Some last' \<and>
               map_option key (Value ?c last') = Some 1" by blast
  then have "Back [0] = Some 0" by (simp add: Back_def)
  with g s show ?thesis by blast
qed

text \<open>
  C6. A \<^verbatim>\<open>Get\<close> that finds the key in the index with an expired entry (the TTL is not
  zero and the entry's \<^verbatim>\<open>expiredAt\<close> is strictly before the current time) returns the
  zero value and \<^verbatim>\<open>false\<close>, and the state it leaves is the state it found: the node
  stays in the index and in the list, at its place, and its entry is not modified.
\<close>

theorem Get_expired_unchanged:
  "map_lookup se (items c) k = Some e \<Longrightarrow> Value c e = Some val \<Longrightarrow> ttl c \<noteq> 0 \<Longrightarrow>
   expiredAt val < now \<Longrightarrow> Get se now k c = Inr ((0, False), c)"
  by (simp add: Get_def expired_def)

text \<open>
  With a TTL of 5, the key 2 set at time 0 and the key 1 set at time 1 (so the key 2 is
  at the back), a \<^verbatim>\<open>Get(2)\<close> at time 9 reports a miss and leaves the key 2 at the back.
\<close>

theorem Get_expired_unchanged_witness:
  "run (\<lambda>_. True) [CallSet 0 (2::int) (20::int), CallSet 1 1 10] (fst (New [WithTTL 5])) =
   Inr \<lparr>items = [(2, 0), (1, 1)], evictList = [1, 0], capacity = 128, ttl = 5,
        Value = [0 \<mapsto> \<lparr>key = 2, value' = 20, expiredAt = 5\<rparr>,
                 1 \<mapsto> \<lparr>key = 1, value' = 10, expiredAt = 6\<rparr>], nxt = 2\<rparr> \<and>
   Get (\<lambda>_. True) 9 (2::int)
     \<lparr>items = [(2, 0), (1, 1)], evictList = [1, 0], capacity = 128, ttl = 5,
      Value = [0 \<mapsto> \<lparr>key = 2, value' = 20::int, expiredAt = 5\<rparr>,
               1 \<mapsto> \<lparr>key = 1, value' = 10, expiredAt = 6\<rparr>], nxt = 2\<rparr> =
   Inr ((0, False),
     \<lparr>items = [(2, 0), (1, 1)], evictList = [1, 0], capacity = 128, ttl = 5,
      Value = [0 \<mapsto> \<lparr>key = 2, value' = 20, expiredAt = 5\<rparr>,
               1 \<mapsto> \<lparr>key = 1, value' = 10, expiredAt = 6\<rparr>], nxt = 2\<rparr>)"
proof -
  have "Get (\<lambda>_. True) 9 (2::int)
     \<lparr>items = [(2, 0), (1, 1)], evictList = [1, 0], capacity = 128, ttl = 5,
      Value = [0 \<mapsto> \<lparr>key = 2, value' = 20::int, expiredAt = 5\<rparr>,
               1 \<mapsto> \<lparr>key = 1, value' = 10, expiredAt = 6\<rparr>], nxt = 2\<rparr> =
   Inr ((0, False),
     \<lparr>items = [(2, 0), (1, 1)], evictList = [1, 0], capacity = 128, ttl = 5,
      Value = [0 \<mapsto> \<lparr>key = 2, value' = 20, expiredAt = 5\<rparr>,
               1 \<mapsto> \<lparr>key = 1, value' = 10, expiredAt = 6\<rparr>], nxt = 2\<rparr>)"
    by (rule Get_expired_unchanged[where e = 0 and val = "\<lparr>key = 2, value' = 20, expiredAt = 5\<rparr>"])
      (simp_all add: key_eq_def)
  then show ?thesis by (simp add: eval_defs)
qed

text \<open>
  C7, as stated: \<^verbatim>\<open>Set(K, V1)\<close>, \<^verbatim>\<open>Set(K, V2)\<close>, \<^verbatim>\<open>Get(K)\<close> returns \<open>(V2, true)\<close>, the
  size after the second \<^verbatim>\<open>Set\<close> is the size after the first, and the second \<^verbatim>\<open>Set\<close>
  evicts no other key. It fails when the cache has a TTL and the entry has expired when
  it is read: with a TTL of 1 and both \<^verbatim>\<open>Set\<close> calls at time 0, \<^verbatim>\<open>Get\<close> at time 5 returns
  the zero value and \<^verbatim>\<open>false\<close>. It also fails for a key that is not equal to itself. On a
  cache of capacity 2 that holds the key 1, after \<^verbatim>\<open>Set(NaN, 10)\<close> the second
  \<^verbatim>\<open>Set(NaN, 20)\<close> does not find the key: it removes the node of the key 1, which the
  index then no longer finds, and adds a second node and a second index entry for NaN;
  \<^verbatim>\<open>Get(NaN)\<close> returns the zero value and \<^verbatim>\<open>false\<close>. On a fresh cache of capacity 128 the
  list has one node after the first \<^verbatim>\<open>Set(NaN, 10)\<close> and two after the second.
\<close>

theorem overwrite_counterexample:
  "Set (\<lambda>_. True) 0 (1::int) (10::int) (fst (New [WithTTL 1])) =
   Inr \<lparr>items = [(1, 0)], evictList = [0], capacity = 128, ttl = 1,
        Value = [0 \<mapsto> \<lparr>key = 1, value' = 10, expiredAt = 1\<rparr>], nxt = 1\<rparr> \<and>
   Set (\<lambda>_. True) 0 (1::int) (20::int)
     \<lparr>items = [(1, 0)], evictList = [0], capacity = 128, ttl = 1,
      Value = [0 \<mapsto> \<lparr>key = 1, value' = 10, expiredAt = 1\<rparr>], nxt = 1\<rparr> =
   Inr \<lparr>items = [(1, 0)], evictList = [0], capacity = 128, ttl = 1,
        Value = [0 \<mapsto> \<lparr>key = 1, value' = 20, expiredAt = 1\<rparr>], nxt = 1\<rparr> \<and>
   Get (\<lambda>_. True) 5 (1::int)
     \<lparr>items = [(1, 0)], evictList = [0], capacity = 128, ttl = 1,
      Value = [0 \<mapsto> \<lparr>key = 1, value' = 20::int, expiredAt = 1\<rparr>], nxt = 1\<rparr> =
   Inr ((0, False),
     \<lparr>items = [(1, 0)], evictList = [0], capacity = 128, ttl = 1,
      Value = [0 \<mapsto> \<lparr>key = 1, value' = 20, expiredAt = 1\<rparr>], nxt = 1\<rparr>) \<and>
   run is_Num [CallSet 0 (Num 1) (5::int), CallSet 1 NaN 10] (fst (New [WithCapacity 2])) =
   Inr \<lparr>items = [(Num 1, 0), (NaN, 1)], evictList = [1, 0], capacity = 2, ttl = 0,
        Value = [0 \<mapsto> \<lparr>key = Num 1, value' = 5, expiredAt = 0\<rparr>,
                 1 \<mapsto> \<lparr>key = NaN, value' = 10, expiredAt = 1\<rparr>], nxt = 2\<rparr> \<and>
   Set is_Num 2 NaN (20::int)
     \<lparr>items = [(Num 1, 0), (NaN, 1)], evictList = [1, 0], capacity = 2, ttl = 0,
      Value = [0 \<mapsto> \<lparr>key = Num 1, value' = 5, expiredAt = 0\<rparr>,
               1 \<mapsto> \<lparr>key = NaN, value' = 10, expiredAt = 1\<rparr>], nxt = 2\<rparr> =
   Inr \<lparr>items = [(NaN, 1), (NaN, 2)], evictList = [2, 1], capacity = 2, ttl = 0,
        Value = [0 \<mapsto> \<lparr>key = Num 1, value' = 5, expiredAt = 0\<rparr>,
                 1 \<mapsto> \<lparr>key = NaN, value' = 10, expiredAt = 1\<rparr>,
                 2 \<mapsto> \<lparr>key = NaN, value' = 20, expiredAt = 2\<rparr>], nxt = 3\<rparr> \<and>
   Get is_Num 3 NaN
     \<lparr>items = [(NaN, 1), (NaN, 2)], evictList = [2, 1], capacity = 2, ttl = 0,
      Value = [0 \<mapsto> \<lparr>key = Num 1, value' = 5::int, expiredAt = 0\<rparr>,
               1 \<mapsto> \<lparr>key = NaN, value' = 10, expiredAt = 1\<rparr>,
               2 \<mapsto> \<lparr>key = NaN, value' = 20, expiredAt = 2\<rparr>], nxt = 3\<rparr> =
   Inr ((0, False),
     \<lparr>items = [(NaN, 1), (NaN, 2)], evictList = [2, 1], capacity = 2, ttl = 0,
      Value = [0 \<mapsto> \<lparr>key = Num 1, value' = 5, expiredAt = 0\<rparr>,
               1 \<mapsto> \<lparr>key = NaN, value' = 10, expiredAt = 1\<rparr>,
               2 \<mapsto> \<lparr>key = NaN, value' = 20, expiredAt = 2\<rparr>], nxt = 3\<rparr>) \<and>
   map_lookup is_Num [(Num 1, 0), (NaN, 1)] (Num 1) = Some 0 \<and>
   map_lookup is_Num [(NaN, 1), (NaN, 2)] (Num 1) = None \<and>
   Set is_Num 0 NaN (10::int) (fst (New [])) =
   Inr \<lparr>items = [(NaN, 0)], evictList = [0], capacity = 128, ttl = 0,
        Value = [0 \<mapsto> \<lparr>key = NaN, value' = 10, expiredAt = 0\<rparr>], nxt = 1\<rparr> \<and>
   Set is_Num 1 NaN (20::int)
     \<lparr>items = [(NaN, 0)], evictList = [0], capacity = 128, ttl = 0,
      Value = [0 \<mapsto> \<lparr>key = NaN, value' = 10, expiredAt = 0\<rparr>], nxt = 1\<rparr> =
   Inr \<lparr>items = [(NaN, 0), (NaN, 1)], evictList = [1, 0], capacity = 128, ttl = 0,
        Value = [0 \<mapsto> \<lparr>key = NaN, value' = 10, expiredAt = 0\<rparr>,
                 1 \<mapsto> \<lparr>key = NaN, value' = 20, expiredAt = 1\<rparr>], nxt = 2\<rparr> \<and>
   Len [0] = 1 \<and> Len [1, 0] = 2"
  by (simp add: eval_defs numeral_2_eq_2 numeral_3_eq_3)

text \<open>
  C7, amended: in any state that calls can reach, for a key \<open>K\<close> that is equal to
  itself, \<^verbatim>\<open>Set(K, V1)\<close> and \<^verbatim>\<open>Set(K, V2)\<close> complete, and the \<^verbatim>\<open>Get(K)\<close> that follows
  returns \<open>(V2, true)\<close>, unless the TTL is not zero and the expiry written by the second
  \<^verbatim>\<open>Set\<close> (its time plus the TTL) is strictly before the time of the \<^verbatim>\<open>Get\<close>, where it
  returns the zero value and \<^verbatim>\<open>false\<close>. The list and the index have the same sizes after
  the second \<^verbatim>\<open>Set\<close> as after the first. A \<^verbatim>\<open>Set\<close> of a key that the index finds leaves
  the index and the set of the list's elements as they are, at any size of the list: it
  evicts nothing.
\<close>

theorem overwrite:
  assumes r: "run se calls (fst (New opts)) = Inr c" and self: "se k"
  shows "\<exists>c1 c2. Set se t1 k v1 c = Inr c1 \<and> Set se t2 k v2 c1 = Inr c2 \<and>
           (if ttl c \<noteq> 0 \<and> t2 + ttl c < t then Get se t k c2 = Inr ((0, False), c2)
            else \<exists>c3. Get se t k c2 = Inr ((v2, True), c3)) \<and>
           Len (evictList c2) = Len (evictList c1) \<and>
           map_len (items c2) = map_len (items c1) \<and>
           (\<forall>k' e. map_lookup se (items c) k' = Some e \<longrightarrow>
              (\<exists>c'. Set se t1 k' v1 c = Inr c' \<and> items c' = items c \<and>
                 set (evictList c') = set (evictList c)))"
proof -
  let ?e1 = "\<lparr>key = k, value' = v1, expiredAt = t1 + ttl c\<rparr>"
  have w: "cache_ok se c" by (rule reachable_ok[OF r])
  from Set_entries_head[OF w, of t1 k v1] obtain c1 where
    c1: "Set se t1 k v1 c = Inr c1" "cache_ok se c1" "ttl c1 = ttl c"
    "?e1 \<in> set (entries c1)" by blast
  have "se (key ?e1)" using self by simp
  from entries_lookup[OF c1(2) c1(4) this] obtain e where
    e: "map_lookup se (items c1) k = Some e" by auto
  from Set_present[OF c1(2) e, of t2 v2] obtain c2 where
    c2: "Set se t2 k v2 c1 = Inr c2" "cache_ok se c2" "ttl c2 = ttl c1" "items c2 = items c1"
    "Len (evictList c2) = Len (evictList c1)"
    "entries c2 = \<lparr>key = k, value' = v2, expiredAt = t2 + ttl c1\<rparr> # filter (\<lambda>x. key x \<noteq> k) (entries c1)"
    by blast
  have "\<lparr>key = k, value' = v2, expiredAt = t2 + ttl c\<rparr> \<in> set (entries c2)"
    by (simp add: c2(6) c1(3))
  from Get_entry[OF c2(2) this self, of t]
  have g: "if ttl c \<noteq> 0 \<and> t2 + ttl c < t then Get se t k c2 = Inr ((0, False), c2)
            else \<exists>c3. Get se t k c2 = Inr ((v2, True), c3)"
    by (simp add: c2(3) c1(3))
  have p: "\<forall>k' e. map_lookup se (items c) k' = Some e \<longrightarrow>
              (\<exists>c'. Set se t1 k' v1 c = Inr c' \<and> items c' = items c \<and>
                 set (evictList c') = set (evictList c))"
    by (simp add: Set_def)
  have l: "map_len (items c2) = map_len (items c1)" by (simp add: c2(4))
  from c1(1) c2(1) g c2(5) l p show ?thesis by blast
qed

text \<open>
  A full cache of capacity 2 with the keys NaN and 2 and a TTL of 5: the key 2 is set at
  the times 1 and 2, and read at time 7, the expiry written by the second \<^verbatim>\<open>Set\<close>; the
  index stays as it is.
\<close>

theorem overwrite_witness:
  "\<exists>c1 c2. Set is_Num 1 (Num 2) (11::int)
       \<lparr>items = [(NaN, 0), (Num 2, 1)], evictList = [1, 0], capacity = 2, ttl = 5,
        Value = [0 \<mapsto> \<lparr>key = NaN, value' = 10, expiredAt = 5\<rparr>,
                 1 \<mapsto> \<lparr>key = Num 2, value' = 20, expiredAt = 5\<rparr>], nxt = 2\<rparr> = Inr c1 \<and>
     Set is_Num 2 (Num 2) 12 c1 = Inr c2 \<and>
     (\<exists>c3. Get is_Num 7 (Num 2) c2 = Inr ((12, True), c3)) \<and>
     Len (evictList c2) = Len (evictList c1) \<and>
     map_len (items c2) = map_len (items c1) \<and>
     items c1 = [(NaN, 0), (Num 2, 1)]"
proof -
  let ?c = "\<lparr>items = [(NaN, 0::nat), (Num 2, 1)], evictList = [1, 0], capacity = 2, ttl = 5,
        Value = [0 \<mapsto> \<lparr>key = NaN, value' = 10::int, expiredAt = 5\<rparr>,
                 1 \<mapsto> \<lparr>key = Num 2, value' = 20, expiredAt = 5\<rparr>], nxt = 2\<rparr>"
  have sk: "is_Num (Num 2)" by simp
  from overwrite[OF overwrite_example sk, where ?t1.0 = 1 and ?v1.0 = 11 and ?t2.0 = 2
      and ?v2.0 = 12 and t = 7]
  obtain c1 c2 where a: "Set is_Num 1 (Num 2) 11 ?c = Inr c1" "Set is_Num 2 (Num 2) 12 c1 = Inr c2"
    "if ttl ?c \<noteq> 0 \<and> 2 + ttl ?c < 7 then Get is_Num 7 (Num 2) c2 = Inr ((0, False), c2)
     else \<exists>c3. Get is_Num 7 (Num 2) c2 = Inr ((12, True), c3)"
    "Len (evictList c2) = Len (evictList c1)" "map_len (items c2) = map_len (items c1)"
    "\<forall>k' e. map_lookup is_Num (items ?c) k' = Some e \<longrightarrow>
              (\<exists>c'. Set is_Num 1 k' 11 ?c = Inr c' \<and> items c' = items ?c \<and>
                 set (evictList c') = set (evictList ?c))"
    by blast
  have "\<not> (ttl ?c \<noteq> 0 \<and> 2 + ttl ?c < 7)" by simp
  with a(3) have g: "\<exists>c3. Get is_Num 7 (Num 2) c2 = Inr ((12, True), c3)" by presburger
  have "map_lookup is_Num (items ?c) (Num 2) = Some 1" by (simp add: key_eq_def)
  from a(6)[rule_format, OF this] a(1) have "items c1 = items ?c" by auto
  then have "items c1 = [(NaN, 0), (Num 2, 1)]" by simp
  with a(1,2,4,5) g show ?thesis by blast
qed

text \<open>
  C8. When the index has the key with an expired entry (the TTL is not zero and the
  entry's \<^verbatim>\<open>expiredAt\<close> is strictly before the current time), where a \<^verbatim>\<open>Get\<close> reports a
  miss, a \<^verbatim>\<open>Set\<close> of the key keeps the index as it is and writes the new value and the
  expiry \<open>now + ttl\<close> into the element the key already has; a \<^verbatim>\<open>Get\<close> of the key at any
  time that is not after that expiry then returns the new value and \<^verbatim>\<open>true\<close>.
\<close>

theorem Set_resurrects_expired:
  assumes "map_lookup se (items c) k = Some e" and "Value c e = Some old" and "ttl c \<noteq> 0"
    and "expiredAt old < now"
  shows "Get se now k c = Inr ((0, False), c) \<and>
         (\<exists>c1. Set se now k v c = Inr c1 \<and> items c1 = items c \<and>
            Value c1 e = Some \<lparr>key = k, value' = v, expiredAt = now + ttl c\<rparr> \<and>
            (\<forall>t. \<not> now + ttl c < t \<longrightarrow> (\<exists>c2. Get se t k c1 = Inr ((v, True), c2))))"
  using assms by (simp add: Set_def Get_def expired_def)

text \<open>
  TTL 5, the key 2 with the expiry 5: at time 9 it is expired; \<^verbatim>\<open>Set(2, 30)\<close> at time 9
  writes the expiry 14, and \<^verbatim>\<open>Get(2)\<close> at time 12 returns 30.
\<close>

theorem Set_resurrects_expired_witness:
  "Get (\<lambda>_. True) 9 (2::int)
     \<lparr>items = [(2, 0)], evictList = [0], capacity = 128, ttl = 5,
      Value = [0 \<mapsto> \<lparr>key = 2, value' = 20::int, expiredAt = 5\<rparr>], nxt = 1\<rparr> =
   Inr ((0, False),
     \<lparr>items = [(2, 0)], evictList = [0], capacity = 128, ttl = 5,
      Value = [0 \<mapsto> \<lparr>key = 2, value' = 20, expiredAt = 5\<rparr>], nxt = 1\<rparr>) \<and>
   (\<exists>c1. Set (\<lambda>_. True) 9 (2::int) (30::int)
       \<lparr>items = [(2, 0)], evictList = [0], capacity = 128, ttl = 5,
        Value = [0 \<mapsto> \<lparr>key = 2, value' = 20, expiredAt = 5\<rparr>], nxt = 1\<rparr> = Inr c1 \<and>
      items c1 = [(2, 0)] \<and>
      Value c1 0 = Some \<lparr>key = 2, value' = 30, expiredAt = 14\<rparr> \<and>
      (\<exists>c2. Get (\<lambda>_. True) 12 2 c1 = Inr ((30, True), c2)))"
proof -
  let ?se = "\<lambda>_::int. True"
  let ?c = "\<lparr>items = [(2::int, 0::nat)], evictList = [0], capacity = 128, ttl = 5,
        Value = [0 \<mapsto> \<lparr>key = 2, value' = 20::int, expiredAt = 5\<rparr>], nxt = 1\<rparr>"
  have h: "map_lookup ?se (items ?c) 2 = Some 0"
    "Value ?c 0 = Some \<lparr>key = 2, value' = 20, expiredAt = 5\<rparr>"
    "ttl ?c \<noteq> 0" "expiredAt \<lparr>key = 2::int, value' = 20::int, expiredAt = 5\<rparr> < 9"
    by (simp_all add: key_eq_def)
  from Set_resurrects_expired[OF h, of 30]
  obtain c1 where a: "Get ?se 9 2 ?c = Inr ((0, False), ?c)" "Set ?se 9 2 30 ?c = Inr c1"
    "items c1 = items ?c"
    "Value c1 0 = Some \<lparr>key = 2, value' = 30, expiredAt = 9 + ttl ?c\<rparr>"
    "\<forall>t. \<not> 9 + ttl ?c < t \<longrightarrow> (\<exists>c2. Get ?se t 2 c1 = Inr ((30, True), c2))"
    by blast
  have "\<not> 9 + ttl ?c < 12" by simp
  with a(5) have g: "\<exists>c2. Get ?se 12 2 c1 = Inr ((30, True), c2)" by blast
  from a(3) have i: "items c1 = [(2, 0)]" by simp
  from a(4) have v: "Value c1 0 = Some \<lparr>key = 2, value' = 30, expiredAt = 14\<rparr>" by simp
  from a(1,2) i v g show ?thesis by blast
qed

text \<open>
  C9. \<^verbatim>\<open>New\<close> returns a nil error for every list of options. In a list of options, a
  \<^verbatim>\<open>WithCapacity(n)\<close> with \<open>n \<le> 0\<close>, a \<^verbatim>\<open>WithTTL(d)\<close> with \<open>d < 0\<close> and a nil option
  change nothing: the options are those of the list without it. When the list has no
  \<^verbatim>\<open>WithCapacity\<close> with a positive argument the capacity is 128, and when it has no
  \<^verbatim>\<open>WithTTL\<close> with an argument that is not negative the TTL is 0.
\<close>

theorem New_never_fails:
  "snd (New opts :: ('k, 'v) Cache \<times> error option) = None \<and>
   (n \<le> 0 \<longrightarrow> applyOpts (xs @ WithCapacity n # ys) opt = applyOpts (xs @ ys) opt) \<and>
   (d < 0 \<longrightarrow> applyOpts (xs @ WithTTL d # ys) opt = applyOpts (xs @ ys) opt) \<and>
   applyOpts (xs @ None # ys) opt = applyOpts (xs @ ys) opt \<and>
   ((\<forall>x \<in> set opts. x = None \<or> (\<exists>n\<le>0. x = WithCapacity n) \<or> (\<exists>d. x = WithTTL d)) \<longrightarrow>
      capacity (fst (New opts :: ('k, 'v) Cache \<times> error option)) = 128) \<and>
   ((\<forall>x \<in> set opts. x = None \<or> (\<exists>d<0. x = WithTTL d) \<or> (\<exists>n. x = WithCapacity n)) \<longrightarrow>
      ttl (fst (New opts :: ('k, 'v) Cache \<times> error option)) = 0)"
proof (intro conjI impI)
  show "snd (New opts :: ('k, 'v) Cache \<times> error option) = None" by (simp add: New_def Let_def)
next
  assume "n \<le> 0"
  then show "applyOpts (xs @ WithCapacity n # ys) opt = applyOpts (xs @ ys) opt"
    by (simp add: applyOpts_append WithCapacity_def)
next
  assume "d < 0"
  then show "applyOpts (xs @ WithTTL d # ys) opt = applyOpts (xs @ ys) opt"
    by (simp add: applyOpts_append WithTTL_def)
next
  show "applyOpts (xs @ None # ys) opt = applyOpts (xs @ ys) opt"
    by (simp add: applyOpts_append)
next
  assume "\<forall>x \<in> set opts. x = None \<or> (\<exists>n\<le>0. x = WithCapacity n) \<or> (\<exists>d. x = WithTTL d)"
  from applyOpts_capacity_kept[OF this]
  show "capacity (fst (New opts :: ('k, 'v) Cache \<times> error option)) = 128"
    by (simp add: New_def Let_def defaultSize_def)
next
  assume "\<forall>x \<in> set opts. x = None \<or> (\<exists>d<0. x = WithTTL d) \<or> (\<exists>n. x = WithCapacity n)"
  from applyOpts_ttl_kept[OF this]
  show "ttl (fst (New opts :: ('k, 'v) Cache \<times> error option)) = 0"
    by (simp add: New_def Let_def)
qed

text \<open>
  The options \<^verbatim>\<open>WithCapacity(-5)\<close>, nil, \<^verbatim>\<open>WithCapacity(0)\<close>, \<^verbatim>\<open>WithTTL(-1)\<close> give the
  capacity 128 and the TTL 0; between \<^verbatim>\<open>WithCapacity(7)\<close> and \<^verbatim>\<open>WithTTL(3)\<close>, an invalid
  option changes nothing.
\<close>

theorem New_never_fails_witness:
  "snd (New [WithCapacity (-5), None, WithCapacity 0, WithTTL (-1)]
         :: (int, int) Cache \<times> error option) = None \<and>
   applyOpts ([WithCapacity 7] @ WithCapacity (-5) # [WithTTL 3]) \<lparr>o_capacity = 0, o_ttl = 0\<rparr> =
     applyOpts ([WithCapacity 7] @ [WithTTL 3]) \<lparr>o_capacity = 0, o_ttl = 0\<rparr> \<and>
   applyOpts ([WithCapacity 7] @ WithTTL (-1) # [WithTTL 3]) \<lparr>o_capacity = 0, o_ttl = 0\<rparr> =
     applyOpts ([WithCapacity 7] @ [WithTTL 3]) \<lparr>o_capacity = 0, o_ttl = 0\<rparr> \<and>
   applyOpts ([WithCapacity 7] @ [WithTTL 3]) \<lparr>o_capacity = 0, o_ttl = 0\<rparr> =
     \<lparr>o_capacity = 7, o_ttl = 3\<rparr> \<and>
   capacity (fst (New [WithCapacity (-5), None, WithCapacity 0, WithTTL (-1)]
         :: (int, int) Cache \<times> error option)) = 128 \<and>
   ttl (fst (New [WithCapacity (-5), None, WithCapacity 0, WithTTL (-1)]
         :: (int, int) Cache \<times> error option)) = 0"
proof -
  let ?opts = "[WithCapacity (-5), None, WithCapacity 0, WithTTL (-1)]"
  note t = New_never_fails[where opts = ?opts and n = "-5" and d = "-1" and xs = "[WithCapacity 7]"
      and ys = "[WithTTL 3]" and opt = "\<lparr>o_capacity = 0, o_ttl = 0\<rparr>" and ?'k = int and ?'v = int]
  have a1: "\<exists>n\<le>0. WithCapacity (-5) = WithCapacity n" by (rule exI[of _ "-5"]) simp
  have a2: "\<exists>n\<le>0. WithCapacity 0 = WithCapacity n" by (rule exI[of _ 0]) simp
  have a3: "\<exists>d<0. WithTTL (-1) = WithTTL d" by (rule exI[of _ "-1"]) simp
  have a4: "\<exists>d. WithTTL (-1) = WithTTL d" "\<exists>n. WithCapacity (-5) = WithCapacity n"
    "\<exists>n. WithCapacity 0 = WithCapacity n" by blast+
  have c: "\<forall>x \<in> set ?opts. x = None \<or> (\<exists>n\<le>0. x = WithCapacity n) \<or> (\<exists>d. x = WithTTL d)"
    using a1 a2 a4 by simp
  have d: "\<forall>x \<in> set ?opts. x = None \<or> (\<exists>d<0. x = WithTTL d) \<or> (\<exists>n. x = WithCapacity n)"
    using a3 a4 by simp
  have n: "(-5::int) \<le> 0" "(-1::int) < 0" by simp_all
  have 1: "applyOpts ([WithCapacity 7] @ [WithTTL 3]) \<lparr>o_capacity = 0, o_ttl = 0\<rparr> = \<lparr>o_capacity = 7, o_ttl = 3\<rparr>"
    by (simp add: WithCapacity_def WithTTL_def)
  from t c d n 1 show ?thesis by blast
qed

text \<open>
  C10. A \<^verbatim>\<open>Get\<close> of a key that the index does not find returns the zero value and
  \<^verbatim>\<open>false\<close>, and the state it leaves is the state it found: the size, the index, the
  order of the list and every stored entry are the same.
\<close>

theorem Get_absent:
  "map_lookup se (items c) k = None \<Longrightarrow> Get se now k c = Inr ((0, False), c)"
  by (simp add: Get_def)

text \<open>
  The key 7 is absent from the cache that holds the keys 2 and 1.
\<close>

theorem Get_absent_witness:
  "Get (\<lambda>_. True) 9 (7::int)
     \<lparr>items = [(2, 0), (1, 1)], evictList = [1, 0], capacity = 128, ttl = 5,
      Value = [0 \<mapsto> \<lparr>key = 2, value' = 20::int, expiredAt = 5\<rparr>,
               1 \<mapsto> \<lparr>key = 1, value' = 10, expiredAt = 6\<rparr>], nxt = 2\<rparr> =
   Inr ((0, False),
     \<lparr>items = [(2, 0), (1, 1)], evictList = [1, 0], capacity = 128, ttl = 5,
      Value = [0 \<mapsto> \<lparr>key = 2, value' = 20, expiredAt = 5\<rparr>,
               1 \<mapsto> \<lparr>key = 1, value' = 10, expiredAt = 6\<rparr>], nxt = 2\<rparr>)"
  by (rule Get_absent) (simp add: key_eq_def)

end
